theory Spec2Isabelle
  imports Complex_Main "HOL-Library.Multiset"
begin

section \<open>The lumber cut planner: data\<close>

text \<open>
  The planner of \<^verbatim>\<open>construction/lumber-cuts.js\<close> packs cuts onto pieces of lumber.

  \<^verbatim>\<open>class Cut { constructor(value, partName) {...} }\<close>: the field \<^verbatim>\<open>value\<close> is
  written \<open>value'\<close>. A length is a finite JavaScript number, kept as the real
  number it denotes; what the arithmetic of the code does to such numbers is in the
  section on numbers below.
\<close>

datatype Cut = Cut (value': real) (partName: string)

text \<open>
  What an element of a \<^verbatim>\<open>cuts\<close> array can be: \<^verbatim>\<open>undefined\<close>; \<^verbatim>\<open>null\<close>; a bare number
  (\<open>Num\<close>), whose property \<^verbatim>\<open>value\<close> is undefined, as it is for a string or a
  boolean; an object that is not a Cut but has a numeric property \<^verbatim>\<open>value\<close>
  (\<open>Plain\<close>); an instance of \<^verbatim>\<open>Cut\<close> (\<open>Inst\<close>).
\<close>

datatype jsval = Undefined | Null | Num real | Plain real | Inst Cut

text \<open>A bin is the array of the Cuts on one piece of lumber.\<close>

type_synonym bin = "Cut list"

text \<open>
  What the code throws: \<^verbatim>\<open>new Error(message)\<close>, or the TypeError of the language
  (a property read on \<^verbatim>\<open>null\<close> or \<^verbatim>\<open>undefined\<close>, a reduce of an empty array).
\<close>

datatype error = Error string | TypeError

text \<open>
  The object returned by \<^verbatim>\<open>getAndValidateInputs\<close>, with the two fields the solvers
  read (\<^verbatim>\<open>lumberLen\<close>, \<^verbatim>\<open>cutWidth\<close> and \<^verbatim>\<open>lumberMargin\<close> are read by the display
  only). The object \<^verbatim>\<open>cuts\<close> maps a part name to its padded cut lengths; it is kept
  as the list of its properties in enumeration order (the order of \<^verbatim>\<open>Object.keys\<close>
  and of \<^verbatim>\<open>for ... in\<close>), with the key \<^verbatim>\<open>false\<close> of the miscellaneous cuts
  coerced to a string.
\<close>

record inputs =
  effectiveLumberLen :: real
  cuts :: "(string \<times> real list) list"

section \<open>Numbers\<close>

text \<open>
  The only arithmetic of the solvers is \<^verbatim>\<open>a + b\<close> and \<^verbatim>\<open>a - b\<close> on IEEE 754 double
  precision numbers: the exact result, rounded to 53 significant bits, ties to the
  even significand (\<open>fl\<close>). Doubles underflow gradually, so a sum or a difference
  of two doubles is never rounded for being small, and \<open>fl\<close> needs no least
  exponent. Outside the model: a result of magnitude \<open>2 ^ 1024\<close> or more (the code
  gets \<^verbatim>\<open>Infinity\<close>), and lengths that are \<^verbatim>\<open>NaN\<close> or infinite.

  \<open>exponent x\<close> is the \<open>e\<close> with \<open>2 ^ e \<le> x < 2 ^ (e + 1)\<close>, for \<open>x > 0\<close>.
\<close>

definition roundEven :: "real \<Rightarrow> int" where
  "roundEven y =
     (let f = \<lfloor>y\<rfloor>; d = y - of_int f
      in if d < 1 / 2 then f else if 1 / 2 < d then f + 1 else if even f then f else f + 1)"

function expUp :: "real \<Rightarrow> int" where
  "expUp x = (if 2 \<le> x then expUp (x / 2) + 1 else 0)"
  by pat_completeness auto
termination
  by (relation "measure (\<lambda>x. nat \<lfloor>x\<rfloor>)") (auto simp: floor_less_iff, linarith)

declare expUp.simps [simp del]

function expDown :: "real \<Rightarrow> int" where
  "expDown x = (if 0 < x \<and> x < 1 then expDown (2 * x) - 1 else 0)"
  by pat_completeness auto
termination
proof (relation "measure (\<lambda>x. nat \<lceil>1 / x\<rceil>)")
  show "wf (measure (\<lambda>x::real. nat \<lceil>1 / x\<rceil>))" by simp
next
  fix x :: real
  assume a: "0 < x \<and> x < 1"
  then have "1 < 1 / x" by simp
  have "\<lceil>1 / (2 * x)\<rceil> < \<lceil>1 / x\<rceil>"
  proof -
    have "1 / (2 * x) = (1 / x) / 2" by simp
    moreover have "\<lceil>y / 2\<rceil> < \<lceil>y\<rceil>" if "1 < y" for y :: real
    proof -
      have "y / 2 \<le> of_int (\<lceil>y\<rceil> - 1)"
      proof -
        have 1: "y \<le> of_int \<lceil>y\<rceil>" by simp
        have "2 \<le> \<lceil>y\<rceil>" using that by linarith
        then have 2: "(2::real) \<le> of_int \<lceil>y\<rceil>" by (metis of_int_le_iff of_int_numeral)
        have "of_int (\<lceil>y\<rceil> - 1) = (of_int \<lceil>y\<rceil> :: real) - 1" by simp
        with 1 2 show ?thesis by linarith
      qed
      then have "\<lceil>y / 2\<rceil> \<le> \<lceil>y\<rceil> - 1" by (rule ceiling_le)
      then show ?thesis by simp
    qed
    ultimately show ?thesis using \<open>1 < 1 / x\<close> by metis
  qed
  moreover have "0 < \<lceil>1 / x\<rceil>" using a by simp
  ultimately show "(2 * x, x) \<in> measure (\<lambda>x. nat \<lceil>1 / x\<rceil>)"
    by simp
qed

declare expDown.simps [simp del]

definition exponent :: "real \<Rightarrow> int" where
  "exponent x = (if 1 \<le> x then expUp x else expDown x)"

text \<open>Rounding to the nearest double.\<close>

definition fl :: "real \<Rightarrow> real" where
  "fl x =
     (if x = 0 then 0
      else let q = 2 powi (exponent \<bar>x\<bar> - 52)
           in sgn x * of_int (roundEven (\<bar>x\<bar> / q)) * q)"

text \<open>The numbers that are doubles: rounding leaves them as they are.\<close>

definition double :: "real \<Rightarrow> bool" where
  "double x \<longleftrightarrow> fl x = x"

text \<open>\<^verbatim>\<open>a + b\<close> and \<^verbatim>\<open>a - b\<close> on numbers.\<close>

definition jsAdd :: "real \<Rightarrow> real \<Rightarrow> real" where
  "jsAdd a b = fl (a + b)"

definition jsSub :: "real \<Rightarrow> real \<Rightarrow> real" where
  "jsSub a b = fl (a - b)"

section \<open>Sorting\<close>

text \<open>
  \<^verbatim>\<open>Array.prototype.sort(comparefn)\<close>: the elements that are \<^verbatim>\<open>undefined\<close> go to the
  end without being compared; the others are sorted by a stable sort, in which a
  comparator result of NaN (here \<open>None\<close>) counts as \<open>+0\<close> and an exception thrown by
  the comparator ends the sort (the array is then left as it was). The sort is
  written as a stable insertion sort. Which pairs are compared, and the resulting
  order for a comparator that is not a consistent order, are left to the
  implementation by the language; the model then gives one of the allowed results.
\<close>

fun notGreater :: "real option \<Rightarrow> bool" where
  "notGreater None = True"
| "notGreater (Some d) = (d \<le> 0)"

fun insertBy :: "('a \<Rightarrow> 'a \<Rightarrow> error + real option) \<Rightarrow> 'a \<Rightarrow> 'a list \<Rightarrow> error + 'a list" where
  "insertBy cmp x [] = Inr [x]"
| "insertBy cmp x (y # ys) =
     (case cmp x y of
        Inl e \<Rightarrow> Inl e
      | Inr v \<Rightarrow>
          if notGreater v then Inr (x # y # ys)
          else (case insertBy cmp x ys of Inl e \<Rightarrow> Inl e | Inr zs \<Rightarrow> Inr (y # zs)))"

fun sortLoop :: "('a \<Rightarrow> 'a \<Rightarrow> error + real option) \<Rightarrow> 'a list \<Rightarrow> error + 'a list" where
  "sortLoop cmp [] = Inr []"
| "sortLoop cmp (x # xs) =
     (case sortLoop cmp xs of Inl e \<Rightarrow> Inl e | Inr ordered \<Rightarrow> insertBy cmp x ordered)"

definition Array_sort ::
  "('a \<Rightarrow> bool) \<Rightarrow> ('a \<Rightarrow> 'a \<Rightarrow> error + real option) \<Rightarrow> 'a list \<Rightarrow> error + 'a list" where
  "Array_sort isUndefined cmp xs =
     (case sortLoop cmp (filter (\<lambda>x. \<not> isUndefined x) xs) of
        Inl e \<Rightarrow> Inl e
      | Inr ordered \<Rightarrow> Inr (ordered @ filter isUndefined xs))"

text \<open>
  \<^verbatim>\<open>sortDesc\<close> is only called, by \<^verbatim>\<open>naiveSolve\<close>, on an array of Cut objects, for which
  \<^verbatim>\<open>compareNumbers(a,b) = a - b\<close> is NaN.
\<close>

definition compareNumbers :: "Cut \<Rightarrow> Cut \<Rightarrow> error + real option" where
  "compareNumbers a b = Inr None"

definition sortDesc :: "Cut list \<Rightarrow> error + Cut list" where
  "sortDesc myList =
     (case Array_sort (\<lambda>x. False) compareNumbers myList of
        Inl e \<Rightarrow> Inl e | Inr ordered \<Rightarrow> Inr (rev ordered))"

text \<open>
  \<^verbatim>\<open>x.value\<close>: a TypeError on \<^verbatim>\<open>null\<close> and \<^verbatim>\<open>undefined\<close>, undefined (\<open>None\<close>) on a
  bare number. \<^verbatim>\<open>(a,b) => a.value - b.value\<close> reads \<^verbatim>\<open>a.value\<close> first and is NaN
  when either side is undefined.
\<close>

fun valueOf :: "jsval \<Rightarrow> error + real option" where
  "valueOf Undefined = Inl TypeError"
| "valueOf Null = Inl TypeError"
| "valueOf (Num x) = Inr None"
| "valueOf (Plain v) = Inr (Some v)"
| "valueOf (Inst c) = Inr (Some (value' c))"

definition compareValues :: "jsval \<Rightarrow> jsval \<Rightarrow> error + real option" where
  "compareValues a b =
     (case valueOf a of
        Inl e \<Rightarrow> Inl e
      | Inr va \<Rightarrow>
          (case valueOf b of
             Inl e \<Rightarrow> Inl e
           | Inr vb \<Rightarrow>
               Inr (case (va, vb) of (Some x, Some y) \<Rightarrow> Some (jsSub x y) | _ \<Rightarrow> None)))"

definition sortCutsDesc :: "jsval list \<Rightarrow> error + jsval list" where
  "sortCutsDesc cs =
     (case Array_sort (\<lambda>x. x = Undefined) compareValues cs of
        Inl e \<Rightarrow> Inl e | Inr ordered \<Rightarrow> Inr (rev ordered))"

section \<open>Sums and remainders\<close>

text \<open>
  \<^verbatim>\<open>myList == [] ? 0 : myList.reduce((a,b) => a+b, 0)\<close>: the comparison of an array
  with a fresh array is always false, so the reduce always runs; it adds from the
  left, rounding each sum.
\<close>

definition sumList :: "real list \<Rightarrow> real" where
  "sumList myList = foldl (\<lambda>a b. jsAdd a b) 0 myList"

definition sumCutList :: "bin \<Rightarrow> real" where
  "sumCutList cutList = sumList (map value' cutList)"

definition getBinRemainder :: "real \<Rightarrow> bin \<Rightarrow> real" where
  "getBinRemainder lumberLen b = jsSub lumberLen (sumCutList b)"

section \<open>solveCuts\<close>

text \<open>\<^verbatim>\<open>Math.min.apply(null, r # rs)\<close> of a non-empty array.\<close>

definition Math_min :: "real \<Rightarrow> real list \<Rightarrow> real" where
  "Math_min r rs = foldl min r rs"

text \<open>
  The body of the loop over the cuts, for one \<^verbatim>\<open>nextCut\<close> that is a Cut. The bins are
  values here, so the \<^verbatim>\<open>for (const i in bins)\<close> loop, which pushes the cut onto every
  bin whose remainder equals \<^verbatim>\<open>minUsableRemainder\<close>, is a map over the bins: this is
  what the loop does when no two entries of \<^verbatim>\<open>bins\<close> are the same array, as in every
  call that \<^verbatim>\<open>naiveSolve\<close> and \<^verbatim>\<open>groupedSolve\<close> make (the run on the arrays
  themselves is \<open>solveCutsH\<close> below, related to this one by \<open>solveCutsH_refines\<close>).
\<close>

definition placeCut :: "real \<Rightarrow> Cut \<Rightarrow> bin list \<Rightarrow> bin list" where
  "placeCut lumberLen nextCut bins =
     (case filter (\<lambda>val. val \<ge> value' nextCut) (map (getBinRemainder lumberLen) bins) of
        [] \<Rightarrow> bins @ [[nextCut]]
      | r # rs \<Rightarrow>
          (let minUsableRemainder = Math_min r rs
           in map (\<lambda>b. if getBinRemainder lumberLen b = minUsableRemainder
                        then b @ [nextCut] else b) bins))"

text \<open>The loop over the sorted cuts, with its sanity check \<^verbatim>\<open>nextCut instanceof Cut\<close>.\<close>

fun cutLoop :: "real \<Rightarrow> jsval list \<Rightarrow> bin list \<Rightarrow> error + bin list" where
  "cutLoop lumberLen [] bins = Inr bins"
| "cutLoop lumberLen (Inst nextCut # rest) bins =
     cutLoop lumberLen rest (placeCut lumberLen nextCut bins)"
| "cutLoop lumberLen (notCut # rest) bins = Inl (Error ''Expected instance of Cut'')"

text \<open>\<^verbatim>\<open>bins = bins ?? [[]]\<close>: an absent third argument is \<open>None\<close>.\<close>

definition solveCuts :: "jsval list \<Rightarrow> real \<Rightarrow> bin list option \<Rightarrow> error + bin list" where
  "solveCuts cs lumberLen bins =
     (case sortCutsDesc cs of
        Inl e \<Rightarrow> Inl e
      | Inr ordered \<Rightarrow> cutLoop lumberLen ordered (case bins of None \<Rightarrow> [[]] | Some bs \<Rightarrow> bs))"

section \<open>naiveSolve\<close>

text \<open>
  \<^verbatim>\<open>values.reduce((a,b) => a.concat(b))\<close> has no initial value: it throws a TypeError
  on an empty array. The result is the solution handed to \<^verbatim>\<open>displaySolution\<close> and
  returned.
\<close>

definition naiveSolve :: "inputs \<Rightarrow> error + bin list" where
  "naiveSolve inp =
     (let vals = map (\<lambda>(key, vs). map (\<lambda>val. Cut val key) vs) (cuts inp)
      in case vals of
           [] \<Rightarrow> Inl TypeError
         | v # rest \<Rightarrow>
             (case sortDesc (foldl (\<lambda>a b. a @ b) v rest) of
                Inl e \<Rightarrow> Inl e
              | Inr flattenedVals \<Rightarrow>
                  solveCuts (map Inst flattenedVals) (effectiveLumberLen inp) None))"

section \<open>groupedSolve\<close>

text \<open>The loop over the named parts; the miscellaneous bucket is skipped.\<close>

fun partLoop :: "real \<Rightarrow> (string \<times> real list) list \<Rightarrow> bin list \<Rightarrow> error + bin list" where
  "partLoop lumberLen [] bins = Inr bins"
| "partLoop lumberLen ((part, vs) # rest) bins =
     (if part = ''false'' then partLoop lumberLen rest bins
      else case solveCuts (map (\<lambda>val. Inst (Cut val part)) vs) lumberLen None of
             Inl e \<Rightarrow> Inl e
           | Inr subSoln \<Rightarrow> partLoop lumberLen rest (bins @ subSoln))"

text \<open>
  The merge of bins (second version of the file only). The inner loop over \<open>j\<close>
  merges \<open>bins[j]\<close> into \<open>bins[i]\<close> at the first \<open>j\<close> that has room, removes
  \<open>bins[j]\<close> and leaves the loop by setting \<open>j = bins.length\<close>.
\<close>

function mergeInner :: "real \<Rightarrow> nat \<Rightarrow> nat \<Rightarrow> bin list \<Rightarrow> bin list" where
  "mergeInner lumberLen i j bins =
     (if j < length bins then
        (if getBinRemainder lumberLen (bins ! j)
              \<ge> jsSub lumberLen (getBinRemainder lumberLen (bins ! i))
         then take j (bins[i := bins ! i @ bins ! j]) @ drop (j + 1) bins
         else mergeInner lumberLen i (j + 1) bins)
      else bins)"
  by pat_completeness auto
termination
  by (relation "measure (\<lambda>(lumberLen, i, j, bins). length bins - j)") auto

declare mergeInner.simps [simp del]

function mergeLoop :: "real \<Rightarrow> nat \<Rightarrow> bin list \<Rightarrow> bin list" where
  "mergeLoop lumberLen i bins =
     (if i + 1 < length bins
      then mergeLoop lumberLen (i + 1) (mergeInner lumberLen i (i + 1) bins)
      else bins)"
  by pat_completeness auto
termination
proof (relation "measure (\<lambda>(lumberLen, i, bins). length bins - i)")
  have len: "length (mergeInner len i j bs) \<le> length bs" for len i j bs
    by (induction len i j bs rule: mergeInner.induct)
       (subst mergeInner.simps, auto)
  show "wf (measure (\<lambda>(lumberLen :: real, i, bins :: bin list). length bins - i))"
    by simp
  show "((lumberLen, i + 1, mergeInner lumberLen i (i + 1) bins), (lumberLen, i, bins))
      \<in> measure (\<lambda>(lumberLen, i, bins). length bins - i)"
    if "i + 1 < length bins" for lumberLen :: real and i :: nat and bins :: "bin list"
    using that len[of lumberLen i "i + 1" bins] by simp
qed

declare mergeLoop.simps [simp del]

text \<open>
  \<^verbatim>\<open>bins.sort((a,b) => sumCutList(a) - sumCutList(b)).reverse()\<close>, then the merge loop.
\<close>

definition compareSums :: "bin \<Rightarrow> bin \<Rightarrow> error + real option" where
  "compareSums a b = Inr (Some (jsSub (sumCutList a) (sumCutList b)))"

definition mergeBins :: "real \<Rightarrow> bin list \<Rightarrow> error + bin list" where
  "mergeBins lumberLen bins =
     (case Array_sort (\<lambda>x. False) compareSums bins of
        Inl e \<Rightarrow> Inl e
      | Inr ordered \<Rightarrow> Inr (mergeLoop lumberLen 0 (rev ordered)))"

text \<open>
  \<^verbatim>\<open>groupedSolve\<close> has no return statement; its result is the bin list it hands to
  \<^verbatim>\<open>displaySolution\<close>. \<^verbatim>\<open>inputs.cuts["false"].map\<close> throws a TypeError when the
  miscellaneous key is missing. \<open>groupedSolve\<close> is the version with the merge of bins,
  \<open>groupedSolve_unmerged\<close> the version of \<^verbatim>\<open>construction/lumber-cuts.js\<close>, where
  the merge is still a TODO.
\<close>

definition miscCuts :: "inputs \<Rightarrow> error + jsval list" where
  "miscCuts inp =
     (case map_of (cuts inp) ''false'' of
        None \<Rightarrow> Inl TypeError
      | Some vs \<Rightarrow> Inr (map (\<lambda>val. Inst (Cut val ''false'')) vs))"

definition groupedSolve :: "inputs \<Rightarrow> error + bin list" where
  "groupedSolve inp =
     (let lumberLen = effectiveLumberLen inp
      in case partLoop lumberLen (cuts inp) [] of
           Inl e \<Rightarrow> Inl e
         | Inr bins \<Rightarrow>
             (case mergeBins lumberLen bins of
                Inl e \<Rightarrow> Inl e
              | Inr merged \<Rightarrow>
                  (case miscCuts inp of
                     Inl e \<Rightarrow> Inl e
                   | Inr misc \<Rightarrow> solveCuts misc lumberLen (Some merged))))"

definition groupedSolve_unmerged :: "inputs \<Rightarrow> error + bin list" where
  "groupedSolve_unmerged inp =
     (let lumberLen = effectiveLumberLen inp
      in case partLoop lumberLen (cuts inp) [] of
           Inl e \<Rightarrow> Inl e
         | Inr bins \<Rightarrow>
             (case miscCuts inp of
                Inl e \<Rightarrow> Inl e
              | Inr misc \<Rightarrow> solveCuts misc lumberLen (Some bins)))"

section \<open>Notions used to state the properties\<close>

text \<open>\<^verbatim>\<open>x instanceof Cut\<close>.\<close>

fun isCut :: "jsval \<Rightarrow> bool" where
  "isCut (Inst c) = True"
| "isCut notCut = False"

text \<open>
  The array \<^verbatim>\<open>remainders\<close> of the loop body of \<^verbatim>\<open>solveCuts\<close>: the remainders, as the
  code computes them, of the current bins that are at least the length of the next
  cut.
\<close>

definition usable :: "real \<Rightarrow> Cut \<Rightarrow> bin list \<Rightarrow> real list" where
  "usable lumberLen nextCut bins =
     filter (\<lambda>val. val \<ge> value' nextCut) (map (getBinRemainder lumberLen) bins)"

text \<open>
  A bin is a best fit for the next cut when its computed remainder is at least the
  length of the cut and is the smallest such remainder among the current bins.
  \<open>tied\<close> lists the best-fit bins.
\<close>

definition bestFit :: "real \<Rightarrow> Cut \<Rightarrow> bin list \<Rightarrow> bin \<Rightarrow> bool" where
  "bestFit lumberLen nextCut bins b \<longleftrightarrow>
     value' nextCut \<le> getBinRemainder lumberLen b \<and>
     (\<forall>b'\<in>set bins. value' nextCut \<le> getBinRemainder lumberLen b'
        \<longrightarrow> getBinRemainder lumberLen b \<le> getBinRemainder lumberLen b')"

definition tied :: "real \<Rightarrow> Cut \<Rightarrow> bin list \<Rightarrow> bin list" where
  "tied lumberLen nextCut bins = filter (bestFit lumberLen nextCut bins) bins"

text \<open>
  A run of the loop of \<^verbatim>\<open>solveCuts\<close> has no tie when at every step fewer than two
  of the current bins are a best fit for the next cut. \<open>tieFree\<close> follows the loop
  (\<open>cutLoop\<close>) from the sorted cuts and the starting bins.
\<close>

fun tieFree :: "real \<Rightarrow> jsval list \<Rightarrow> bin list \<Rightarrow> bool" where
  "tieFree lumberLen [] bins = True"
| "tieFree lumberLen (Inst nextCut # rest) bins =
     (length (tied lumberLen nextCut bins) < 2
      \<and> tieFree lumberLen rest (placeCut lumberLen nextCut bins))"
| "tieFree lumberLen (notCut # rest) bins = True"

definition noTies :: "jsval list \<Rightarrow> real \<Rightarrow> bin list option \<Rightarrow> bool" where
  "noTies cs lumberLen bins =
     (case sortCutsDesc cs of
        Inl e \<Rightarrow> True
      | Inr ordered \<Rightarrow>
          tieFree lumberLen ordered (case bins of None \<Rightarrow> [[]] | Some bs \<Rightarrow> bs))"

text \<open>
  The remainder of a bin as a quantity: the usable length minus the sum of the
  lengths of its cuts, in exact arithmetic. \<open>getBinRemainder\<close> is what the code
  computes for it.
\<close>

definition exactRemainder :: "real \<Rightarrow> bin \<Rightarrow> real" where
  "exactRemainder lumberLen b = lumberLen - sum_list (map value' b)"

text \<open>
  \<open>onGrid k x\<close>: the length \<open>x\<close> is a whole multiple of \<open>2 ^ k\<close> (\<open>k\<close> may be
  negative). Lengths on one grid, up to \<open>2 ^ (k + 53)\<close>, are added and subtracted
  without rounding: whole numbers up to \<open>2 ^ 53\<close> with \<open>k = 0\<close>, multiples of an
  eighth up to \<open>2 ^ 50\<close> with \<open>k = - 3\<close>.
\<close>

definition onGrid :: "int \<Rightarrow> real \<Rightarrow> bool" where
  "onGrid k x \<longleftrightarrow> x * 2 powi (- k) \<in> \<int>"

text \<open>
  A bin of non-negative lengths on the grid whose remainder, in exact arithmetic, is
  not negative.
\<close>

definition fits :: "int \<Rightarrow> real \<Rightarrow> bin \<Rightarrow> bool" where
  "fits k lumberLen b \<longleftrightarrow>
     (\<forall>c\<in>set b. onGrid k (value' c) \<and> 0 \<le> value' c) \<and> 0 \<le> exactRemainder lumberLen b"

text \<open>
  The loop body of \<^verbatim>\<open>solveCuts\<close> seen on the lengths alone: bins as lists of lengths,
  the next cut as its length.
\<close>

definition placeLength :: "real \<Rightarrow> real \<Rightarrow> real list list \<Rightarrow> real list list" where
  "placeLength lumberLen v bins =
     (case filter (\<lambda>val. val \<ge> v) (map (\<lambda>b. jsSub lumberLen (sumList b)) bins) of
        [] \<Rightarrow> bins @ [[v]]
      | r # rs \<Rightarrow>
          map (\<lambda>b. if jsSub lumberLen (sumList b) = Math_min r rs then b @ [v] else b) bins)"

section \<open>solveCuts on a store of arrays\<close>

text \<open>
  \<^verbatim>\<open>solveCuts\<close> works on the arrays it is given: \<^verbatim>\<open>cuts.sort(...).reverse()\<close> sorts
  the array of the caller, \<^verbatim>\<open>bins[i].push\<close> and \<^verbatim>\<open>bins.push\<close> change the arrays of
  the caller. To state what the caller sees, arrays live in a store: a reference is
  an index into the list of all arrays, and a new array is added at the end. An array
  is an array of cut values (a \<^verbatim>\<open>cuts\<close> argument), a bin, or an array of references to
  bins. A reference that does not hold the expected kind of array reads as the empty
  array; this does not happen from a well-formed call (\<open>wellFormed\<close> below).
\<close>

type_synonym ref = nat

datatype obj = CutArray "jsval list" | Bin "Cut list" | BinArray "ref list"

type_synonym heap = "obj list"

definition cutsAt :: "heap \<Rightarrow> ref \<Rightarrow> jsval list" where
  "cutsAt h r = (if r < length h then (case h ! r of CutArray cs \<Rightarrow> cs | _ \<Rightarrow> []) else [])"

definition binAt :: "heap \<Rightarrow> ref \<Rightarrow> bin" where
  "binAt h r = (if r < length h then (case h ! r of Bin b \<Rightarrow> b | _ \<Rightarrow> []) else [])"

definition binsAt :: "heap \<Rightarrow> ref \<Rightarrow> ref list" where
  "binsAt h r = (if r < length h then (case h ! r of BinArray rs \<Rightarrow> rs | _ \<Rightarrow> []) else [])"

definition alloc :: "heap \<Rightarrow> obj \<Rightarrow> ref \<times> heap" where
  "alloc h ob = (length h, h @ [ob])"

text \<open>
  \<^verbatim>\<open>for (const i in bins) { if (getBinRemainder(bins[i]) == minUsableRemainder)
  bins[i].push(nextCut); }\<close>: each remainder is read from the store as it is when the
  loop reaches the bin.
\<close>

fun tieLoop :: "real \<Rightarrow> real \<Rightarrow> Cut \<Rightarrow> ref list \<Rightarrow> heap \<Rightarrow> heap" where
  "tieLoop lumberLen minUsableRemainder nextCut [] h = h"
| "tieLoop lumberLen minUsableRemainder nextCut (r # rs) h =
     tieLoop lumberLen minUsableRemainder nextCut rs
       (if getBinRemainder lumberLen (binAt h r) = minUsableRemainder
        then h[r := Bin (binAt h r @ [nextCut])] else h)"

definition placeCutH :: "real \<Rightarrow> Cut \<Rightarrow> ref \<Rightarrow> heap \<Rightarrow> heap" where
  "placeCutH lumberLen nextCut bins h =
     (let rs = binsAt h bins
      in case filter (\<lambda>val. val \<ge> value' nextCut)
                (map (\<lambda>r. getBinRemainder lumberLen (binAt h r)) rs) of
           [] \<Rightarrow> (let (r, h') = alloc h (Bin [nextCut]) in h'[bins := BinArray (rs @ [r])])
         | x # xs \<Rightarrow> tieLoop lumberLen (Math_min x xs) nextCut rs h)"

fun cutLoopH :: "real \<Rightarrow> jsval list \<Rightarrow> ref \<Rightarrow> heap \<Rightarrow> error option \<times> heap" where
  "cutLoopH lumberLen [] bins h = (None, h)"
| "cutLoopH lumberLen (Inst nextCut # rest) bins h =
     cutLoopH lumberLen rest bins (placeCutH lumberLen nextCut bins h)"
| "cutLoopH lumberLen (notCut # rest) bins h = (Some (Error ''Expected instance of Cut''), h)"

text \<open>
  The call \<^verbatim>\<open>solveCuts(cuts, lumberLen, bins)\<close> on references: the result or the error
  thrown, and the store the call leaves. A sort that throws leaves the array of cuts
  as it was. The loop runs over the sorted array, which the loop itself does not
  change.
\<close>

definition solveCutsH :: "ref \<Rightarrow> real \<Rightarrow> ref option \<Rightarrow> heap \<Rightarrow> (error + ref) \<times> heap" where
  "solveCutsH cutsRef lumberLen binsOpt h0 =
     (let (bins, h1) =
            (case binsOpt of
               Some b \<Rightarrow> (b, h0)
             | None \<Rightarrow> (let (r, h) = alloc h0 (Bin []) in alloc h (BinArray [r])))
      in case sortCutsDesc (cutsAt h1 cutsRef) of
           Inl e \<Rightarrow> (Inl e, h1)
         | Inr ordered \<Rightarrow>
             (let h2 = h1[cutsRef := CutArray ordered];
                  (err, h3) = cutLoopH lumberLen ordered bins h2
              in (case err of Some e \<Rightarrow> Inl e | None \<Rightarrow> Inr bins, h3)))"

text \<open>
  A well-formed call: \<open>cutsRef\<close> holds an array of cut values and, when bins are
  passed, \<open>binsOpt\<close> holds an array of references that each hold a bin.
\<close>

definition binsOk :: "heap \<Rightarrow> ref \<Rightarrow> bool" where
  "binsOk h b \<longleftrightarrow>
     b < length h \<and>
     (\<exists>rs. h ! b = BinArray rs \<and> (\<forall>r\<in>set rs. r < length h \<and> (\<exists>x. h ! r = Bin x)))"

definition wellFormed :: "heap \<Rightarrow> ref \<Rightarrow> ref option \<Rightarrow> bool" where
  "wellFormed h cutsRef binsOpt \<longleftrightarrow>
     cutsRef < length h \<and> (\<exists>cs. h ! cutsRef = CutArray cs) \<and>
     (case binsOpt of None \<Rightarrow> True | Some b \<Rightarrow> binsOk h b)"

text \<open>
  What a run may do to the store: arrays are only added, a bin only gains cuts at its
  end, an array of bins only gains references at its end, and an array of cut values
  stays as it is.
\<close>

definition grows :: "heap \<Rightarrow> heap \<Rightarrow> bool" where
  "grows h h' \<longleftrightarrow>
     length h \<le> length h' \<and>
     (\<forall>r<length h.
        case h ! r of
          CutArray cs \<Rightarrow> h' ! r = CutArray cs
        | Bin x \<Rightarrow> (\<exists>added. h' ! r = Bin (x @ added))
        | BinArray rs \<Rightarrow> (\<exists>new. h' ! r = BinArray (rs @ new)))"

text \<open>The bins, as values, that an array of bins of the store holds.\<close>

definition binValues :: "heap \<Rightarrow> ref \<Rightarrow> bin list" where
  "binValues h b = map (binAt h) (binsAt h b)"

section \<open>Rounding\<close>

lemma expUp_bounds: "1 \<le> x \<Longrightarrow> 2 powi expUp x \<le> x \<and> x < 2 powi (expUp x + 1)"
proof (induction x rule: expUp.induct)
  case (1 x)
  show ?case
  proof (cases "2 \<le> x")
    case True
    then have ih: "2 powi expUp (x / 2) \<le> x / 2" "x / 2 < 2 powi (expUp (x / 2) + 1)"
      using "1.IH" by simp_all
    have e: "expUp x = expUp (x / 2) + 1" using True by (subst expUp.simps) simp
    have p: "(2::real) powi (n + 1) = 2 * 2 powi n" for n :: int
      by (simp add: power_int_add)
    from ih show ?thesis unfolding e p by simp
  next
    case False
    then have "expUp x = 0" by (subst expUp.simps) simp
    with False "1.prems" show ?thesis by simp
  qed
qed

lemma expDown_bounds:
  "0 < x \<Longrightarrow> x < 1 \<Longrightarrow> 2 powi expDown x \<le> x \<and> x < 2 powi (expDown x + 1)"
proof (induction x rule: expDown.induct)
  case (1 x)
  have e: "expDown x = expDown (2 * x) - 1" using "1.prems" by (subst expDown.simps) simp
  have p: "(2::real) powi (n - 1) = 2 powi n / 2" for n :: int
    by (simp add: power_int_diff)
  show ?case
  proof (cases "2 * x < 1")
    case True
    with "1.IH" "1.prems" have "2 powi expDown (2 * x) \<le> 2 * x"
      "2 * x < 2 powi (expDown (2 * x) + 1)" by simp_all
    moreover have "(2::real) powi (expDown (2 * x) + 1) = 2 * 2 powi expDown (2 * x)"
      by (simp add: power_int_add)
    ultimately show ?thesis unfolding e p by simp
  next
    case False
    then have "expDown (2 * x) = 0" by (subst expDown.simps) simp
    with False "1.prems" show ?thesis unfolding e by (simp add: power_int_minus)
  qed
qed

lemma exponent_bounds:
  "0 < x \<Longrightarrow> 2 powi exponent x \<le> x \<and> x < 2 powi (exponent x + 1)"
  using expUp_bounds[of x] expDown_bounds[of x] by (simp add: exponent_def)

lemma two_powi_less_iff: "(2::real) powi m < 2 powi n \<longleftrightarrow> m < n"
proof
  assume l: "(2::real) powi m < 2 powi n"
  show "m < n"
  proof (rule ccontr)
    assume "\<not> m < n"
    then have "(2::real) powi n \<le> 2 powi m" by (intro power_int_increasing) simp_all
    with l show False by simp
  qed
next
  assume "m < n"
  then show "(2::real) powi m < 2 powi n" by (intro power_int_strict_increasing) simp_all
qed

lemma exponent_unique:
  assumes "2 powi e \<le> x" and "x < 2 powi (e + 1)"
  shows "exponent x = e"
proof -
  have "(0::real) < 2 powi e" by simp
  with assms(1) have pos: "0 < x" by linarith
  from exponent_bounds[OF pos] have b: "2 powi exponent x \<le> x" "x < 2 powi (exponent x + 1)"
    by simp_all
  have "(2::real) powi e < 2 powi (exponent x + 1)" using assms(1) b(2) by simp
  then have 1: "e < exponent x + 1" by (simp add: two_powi_less_iff)
  have "(2::real) powi exponent x < 2 powi (e + 1)" using assms(2) b(1) by simp
  then have 2: "exponent x < e + 1" by (simp add: two_powi_less_iff)
  from 1 2 show ?thesis by simp
qed

lemma fl_eval:
  assumes "2 powi e \<le> \<bar>x\<bar>" and "\<bar>x\<bar> < 2 powi (e + 1)"
  shows "fl x = sgn x * of_int (roundEven (\<bar>x\<bar> / 2 powi (e - 52))) * 2 powi (e - 52)"
proof -
  have "(0::real) < 2 powi e" by simp
  with assms(1) have "0 < \<bar>x\<bar>" by linarith
  then have "x \<noteq> 0" by simp
  moreover have "exponent \<bar>x\<bar> = e" using assms by (rule exponent_unique)
  ultimately show ?thesis by (simp add: fl_def Let_def)
qed

lemma roundEven_int: "y \<in> \<int> \<Longrightarrow> of_int (roundEven y) = y"
  by (auto simp: roundEven_def Ints_def)

lemma roundEven_ge_floor: "\<lfloor>y\<rfloor> \<le> roundEven y"
  by (simp add: roundEven_def Let_def)

lemma fl_0: "fl 0 = 0"
  by (simp add: fl_def)

lemma fl_minus: "fl (- x) = - fl x"
  by (simp add: fl_def sgn_minus Let_def)

lemma fl_pos: "0 < x \<Longrightarrow> 0 < fl x"
proof -
  assume pos: "0 < x"
  let ?q = "(2::real) powi (exponent \<bar>x\<bar> - 52)"
  have q: "0 < ?q" by simp
  from exponent_bounds[of "\<bar>x\<bar>"] pos have "2 powi exponent \<bar>x\<bar> \<le> \<bar>x\<bar>" by simp
  then have "2 powi exponent \<bar>x\<bar> / ?q \<le> \<bar>x\<bar> / ?q"
    using q by (simp add: divide_right_mono)
  moreover have "2 powi exponent \<bar>x\<bar> / ?q = (2::real) powi 52"
    by (simp add: power_int_diff)
  moreover have "(1::real) \<le> 2 powi 52" by simp
  ultimately have "(1::real) \<le> \<bar>x\<bar> / ?q"
    by linarith
  then have "1 \<le> \<lfloor>\<bar>x\<bar> / ?q\<rfloor>" by (simp add: le_floor_iff)
  with roundEven_ge_floor[of "\<bar>x\<bar> / ?q"] have "0 < roundEven (\<bar>x\<bar> / ?q)" by linarith
  then have "0 < (of_int (roundEven (\<bar>x\<bar> / ?q)) :: real) * ?q"
    using q by simp
  with pos show ?thesis by (simp add: fl_def Let_def)
qed

lemma fl_le_0_iff: "fl x \<le> 0 \<longleftrightarrow> x \<le> 0"
proof (cases "0 < x")
  case True
  with fl_pos[of x] show ?thesis by simp
next
  case False
  then have "x = 0 \<or> 0 < - x" by auto
  then show ?thesis
  proof
    assume "x = 0" then show ?thesis by (simp add: fl_0)
  next
    assume n: "0 < - x"
    from fl_pos[OF n] have "fl x < 0" by (simp add: fl_minus)
    with n show ?thesis by simp
  qed
qed

lemma top_of_binade:
  assumes "a = 2 powi (k + 53)" and "e = k + 53"
  shows "a / 2 powi (e - 52) = (2::real) powi 52"
proof -
  define q where "q = (2::real) powi (k + 1)"
  have q: "q \<noteq> 0" by (simp add: q_def)
  have "k + 53 = (k + 1) + 52" by simp
  then have "(2::real) powi (k + 53) = 2 powi ((k + 1) + 52)" by (rule arg_cong)
  also have "\<dots> = q * 2 powi 52" unfolding q_def by (rule power_int_add) simp
  finally have "a = q * 2 powi 52" using assms(1) by simp
  moreover have "e - 52 = k + 1" using assms(2) by simp
  then have "(2::real) powi (e - 52) = q" by (simp only: q_def)
  ultimately show ?thesis using q by simp
qed

text \<open>No rounding on a number with at most 53 significant bits.\<close>

lemma fl_exact:
  assumes "x * 2 powi (- k) \<in> \<int>" and "\<bar>x\<bar> \<le> 2 powi (k + 53)"
  shows "fl x = x"
proof (cases "x = 0")
  case True
  then show ?thesis by (simp add: fl_0)
next
  case False
  let ?a = "\<bar>x\<bar>"
  let ?e = "exponent ?a"
  let ?q = "(2::real) powi (?e - 52)"
  from False have pos: "0 < ?a" by simp
  from exponent_bounds[OF pos] have lo: "2 powi ?e \<le> ?a" by simp
  have aint: "?a * 2 powi (- k) \<in> \<int>"
  proof -
    have "?a * 2 powi (- k) = \<bar>x * 2 powi (- k)\<bar>" by (simp add: abs_mult)
    then show ?thesis using assms(1) by simp
  qed
  have "?a / ?q \<in> \<int>"
  proof (cases "?e \<le> k + 52")
    case True
    then have "0 \<le> k + 52 - ?e" by simp
    then have "(2::real) powi (k + 52 - ?e) \<in> \<int>"
      by (cases "k + 52 - ?e" rule: int_cases4) (simp_all add: power_int_def)
    moreover have "?a / ?q = (?a * 2 powi (- k)) * 2 powi (k + 52 - ?e)"
      by (simp add: power_int_diff power_int_add power_int_minus field_simps)
    ultimately show ?thesis using aint by (simp add: Ints_mult)
  next
    case False
    have "(2::real) powi ?e \<le> 2 powi (k + 53)" using lo assms(2) by simp
    then have "\<not> (2::real) powi (k + 53) < 2 powi ?e" by simp
    then have "?e \<le> k + 53" by (simp add: two_powi_less_iff)
    with False have e: "?e = k + 53" by simp
    then have "?a = 2 powi (k + 53)" using lo assms(2) by simp
    then have "?a / ?q = 2 powi 52" using e by (rule top_of_binade)
    then show ?thesis by simp
  qed
  then have "of_int (roundEven (?a / ?q)) = ?a / ?q" by (rule roundEven_int)
  then have "fl x = sgn x * (?a / ?q) * ?q" using False by (simp add: fl_def Let_def)
  also have "\<dots> = sgn x * ?a" by simp
  also have "\<dots> = x" by (simp add: sgn_mult_abs)
  finally show ?thesis .
qed

lemma fl_int: "x \<in> \<int> \<Longrightarrow> \<bar>x\<bar> \<le> 2 ^ 53 \<Longrightarrow> fl x = x"
  using fl_exact[of x 0] by simp

lemma fl_even: "x / 2 \<in> \<int> \<Longrightarrow> \<bar>x\<bar> \<le> 2 ^ 54 \<Longrightarrow> fl x = x"
  using fl_exact[of x 1] by (simp add: power_int_minus)

lemma fl_tie_down: "fl (2 ^ 53 + 1) = 2 ^ 53"
  using fl_eval[of 53 "2 ^ 53 + 1"] by (simp add: roundEven_def)

lemma fl_tie_up: "fl (2 ^ 53 + 3) = 2 ^ 53 + 4"
  using fl_eval[of 53 "2 ^ 53 + 3"] by (simp add: roundEven_def)

text \<open>The same on the numerals that the evaluations below meet.\<close>

lemma fl_tie_down_numeral: "fl 9007199254740993 = 9007199254740992"
  using fl_tie_down by simp

lemma fl_tie_up_numeral: "fl 9007199254740995 = 9007199254740996"
  using fl_tie_up by simp

lemmas num_eval = jsAdd_def jsSub_def fl_0 fl_int fl_even fl_tie_down_numeral fl_tie_up_numeral

text \<open>The sign of a difference is the sign of its rounding.\<close>

lemma jsSub_le_0: "jsSub a b \<le> 0 \<longleftrightarrow> a \<le> b"
  by (simp add: jsSub_def fl_le_0_iff)

text \<open>Lengths on a grid.\<close>

lemma onGrid_0: "onGrid k 0"
  by (simp add: onGrid_def)

lemma onGrid_add: "onGrid k x \<Longrightarrow> onGrid k y \<Longrightarrow> onGrid k (x + y)"
  by (simp add: onGrid_def distrib_right)

lemma onGrid_diff: "onGrid k x \<Longrightarrow> onGrid k y \<Longrightarrow> onGrid k (x - y)"
  by (simp add: onGrid_def left_diff_distrib)

lemma onGrid_sum_list: "\<forall>v\<in>set vs. onGrid k v \<Longrightarrow> onGrid k (sum_list vs)"
  by (induction vs) (simp_all add: onGrid_0 onGrid_add)

lemma fl_onGrid: "onGrid k x \<Longrightarrow> \<bar>x\<bar> \<le> 2 powi (k + 53) \<Longrightarrow> fl x = x"
  by (rule fl_exact) (simp_all add: onGrid_def)

section \<open>Sums, minimum and sorting\<close>

lemma sumCutList_Nil: "sumCutList [] = 0"
  by (simp add: sumCutList_def sumList_def)

lemma getBinRemainder_Nil: "fl L = L \<Longrightarrow> getBinRemainder L [] = L"
  by (simp add: getBinRemainder_def sumCutList_Nil jsSub_def)

text \<open>A sum of lengths on a grid is computed without rounding, and so is a remainder.\<close>

lemma foldl_jsAdd_exact:
  assumes "onGrid k a" and "0 \<le> a" and "\<forall>v\<in>set vs. onGrid k v \<and> 0 \<le> v"
    and "a + sum_list vs \<le> 2 powi (k + 53)"
  shows "foldl (\<lambda>a b. jsAdd a b) a vs = a + sum_list vs"
  using assms
proof (induction vs arbitrary: a)
  case Nil
  then show ?case by simp
next
  case (Cons v vs)
  have nn: "0 \<le> sum_list vs"
    using Cons.prems(3) by (intro sum_list_nonneg) simp
  have g: "onGrid k (a + v)"
    using Cons.prems(1,3) by (simp add: onGrid_add)
  have "\<bar>a + v\<bar> \<le> 2 powi (k + 53)"
    using Cons.prems(2,3,4) nn by simp
  with g have e: "jsAdd a v = a + v"
    by (simp add: jsAdd_def fl_onGrid)
  have "foldl (\<lambda>a b. jsAdd a b) (a + v) vs = (a + v) + sum_list vs"
    using g Cons.prems(2,3,4) by (intro Cons.IH) simp_all
  then show ?case by (simp add: e)
qed

lemma sumCutList_exact:
  assumes "\<forall>c\<in>set b. onGrid k (value' c) \<and> 0 \<le> value' c"
    and "sum_list (map value' b) \<le> 2 powi (k + 53)"
  shows "sumCutList b = sum_list (map value' b)"
  using foldl_jsAdd_exact[of k 0 "map value' b"] assms
  by (simp add: sumCutList_def sumList_def onGrid_0)

lemma getBinRemainder_exact:
  assumes "onGrid k L" and "L \<le> 2 powi (k + 53)" and "fits k L b"
  shows "getBinRemainder L b = exactRemainder L b"
proof -
  let ?s = "sum_list (map value' b)"
  from assms(3) have b: "\<forall>c\<in>set b. onGrid k (value' c) \<and> 0 \<le> value' c" and le: "?s \<le> L"
    by (simp_all add: fits_def exactRemainder_def)
  have nn: "0 \<le> ?s" using b by (intro sum_list_nonneg) auto
  have "?s \<le> 2 powi (k + 53)" using le assms(2) by simp
  with b have s: "sumCutList b = ?s" by (rule sumCutList_exact)
  have "onGrid k ?s" using b by (intro onGrid_sum_list) simp
  with assms(1) have "onGrid k (L - ?s)" by (rule onGrid_diff)
  moreover have "\<bar>L - ?s\<bar> \<le> 2 powi (k + 53)" using le nn assms(2) by simp
  ultimately have "fl (L - ?s) = L - ?s" by (rule fl_onGrid)
  then show ?thesis by (simp add: getBinRemainder_def jsSub_def s exactRemainder_def)
qed

lemma Math_min_Min: "Math_min r rs = Min (set (r # rs))"
proof -
  have "foldl min r rs = fold min rs r"
    by (simp add: foldl_conv_fold min.commute)
  moreover have "Min (set (r # rs)) = fold min rs r"
    by (rule Min.set_eq_fold)
  ultimately show ?thesis
    by (simp only: Math_min_def)
qed

lemma placeCut_none:
  "usable L c bins = [] \<Longrightarrow> placeCut L c bins = bins @ [[c]]"
  by (simp add: placeCut_def usable_def)

lemma placeCut_some:
  "usable L c bins \<noteq> [] \<Longrightarrow>
   placeCut L c bins =
     map (\<lambda>b. if getBinRemainder L b = Min (set (usable L c bins)) then b @ [c] else b) bins"
  by (cases "usable L c bins")
     (simp_all add: placeCut_def usable_def[symmetric] Math_min_Min del: set_simps)

lemma Min_usable_ge:
  assumes "usable L c bins \<noteq> []"
  shows "value' c \<le> Min (set (usable L c bins))"
proof -
  have "Min (set (usable L c bins)) \<in> set (usable L c bins)"
    using assms by (intro Min_in) simp_all
  then show ?thesis by (simp add: usable_def)
qed

lemma cutLoop_Inst: "cutLoop L (map Inst ks) bins = Inr (foldl (\<lambda>bs k. placeCut L k bs) bins ks)"
  by (induction ks arbitrary: bins) simp_all

lemma compareValues_Inst:
  "compareValues (Inst a) (Inst b) = Inr (Some (jsSub (value' a) (value' b)))"
  by (simp add: compareValues_def)

lemma insertBy_Inst:
  "insertBy compareValues (Inst k) (map Inst ks) = Inr (map Inst (insort_key value' k ks))"
  by (induction ks) (simp_all add: compareValues_Inst jsSub_le_0)

lemma sortLoop_Inst:
  "sortLoop compareValues (map Inst ks) = Inr (map Inst (sort_key value' ks))"
  by (induction ks) (simp_all add: sort_key_def insertBy_Inst)

lemma filter_Inst:
  "filter (\<lambda>x. \<not> x = Undefined) (map Inst ks) = map Inst ks"
  "filter (\<lambda>x. x = Undefined) (map Inst ks) = []"
  by (induction ks) simp_all

lemma sortCutsDesc_Inst:
  "sortCutsDesc (map Inst ks) = Inr (map Inst (rev (sort_key value' ks)))"
  by (simp add: sortCutsDesc_def Array_sort_def filter_Inst sortLoop_Inst rev_map)

lemma solveCuts_Inst:
  "solveCuts (map Inst ks) L bins =
     Inr (foldl (\<lambda>bs k. placeCut L k bs) (case bins of None \<Rightarrow> [[]] | Some bs \<Rightarrow> bs)
            (rev (sort_key value' ks)))"
  by (simp add: solveCuts_def sortCutsDesc_Inst cutLoop_Inst)

text \<open>A sort that returns has rearranged the array.\<close>

lemma mset_insertBy: "insertBy cmp x ys = Inr zs \<Longrightarrow> mset zs = add_mset x (mset ys)"
  by (induction ys arbitrary: zs) (auto split: sum.splits if_splits)

lemma mset_sortLoop: "sortLoop cmp xs = Inr ys \<Longrightarrow> mset ys = mset xs"
  by (induction xs arbitrary: ys) (auto split: sum.splits dest: mset_insertBy)

lemma mset_Array_sort: "Array_sort u cmp xs = Inr ys \<Longrightarrow> mset ys = mset xs"
proof -
  assume a: "Array_sort u cmp xs = Inr ys"
  then obtain zs where zs: "sortLoop cmp (filter (\<lambda>x. \<not> u x) xs) = Inr zs"
    and ys: "ys = zs @ filter u xs"
    by (auto simp: Array_sort_def split: sum.splits)
  from mset_sortLoop[OF zs] have "mset ys = mset (filter (\<lambda>x. \<not> u x) xs) + mset (filter u xs)"
    by (simp add: ys)
  also have "\<dots> = mset xs"
    by (induction xs) simp_all
  finally show ?thesis .
qed

lemma set_Array_sort: "Array_sort u cmp xs = Inr ys \<Longrightarrow> set ys = set xs"
  using mset_Array_sort[of u cmp xs ys] by (metis set_mset_mset)

text \<open>A sort whose comparator does not throw returns.\<close>

lemma insertBy_total:
  "\<forall>a b. \<exists>v. cmp a b = Inr v \<Longrightarrow> \<exists>zs. insertBy cmp x ys = Inr zs"
proof (induction ys)
  case Nil
  then show ?case by simp
next
  case (Cons y ys)
  from Cons.prems obtain v where v: "cmp x y = Inr v" by blast
  from Cons.IH[OF Cons.prems] obtain zs where "insertBy cmp x ys = Inr zs" by blast
  with v show ?case by simp
qed

lemma sortLoop_total:
  "\<forall>a b. \<exists>v. cmp a b = Inr v \<Longrightarrow> \<exists>ys. sortLoop cmp xs = Inr ys"
proof (induction xs)
  case Nil
  then show ?case by simp
next
  case (Cons x xs)
  from Cons.IH[OF Cons.prems] obtain ys where ys: "sortLoop cmp xs = Inr ys" by blast
  from insertBy_total[OF Cons.prems, of x ys] obtain zs where "insertBy cmp x ys = Inr zs"
    by blast
  with ys show ?case by simp
qed

lemma Array_sort_total:
  "\<forall>a b. \<exists>v. cmp a b = Inr v \<Longrightarrow> \<exists>ys. Array_sort u cmp xs = Inr ys"
  using sortLoop_total[of cmp "filter (\<lambda>x. \<not> u x) xs"] by (auto simp: Array_sort_def)

section \<open>Bins of lengths on a grid keep within the usable length\<close>

lemma fits_single:
  "onGrid k (value' c) \<Longrightarrow> 0 \<le> value' c \<Longrightarrow> value' c \<le> L \<Longrightarrow> fits k L [c]"
  by (simp add: fits_def exactRemainder_def)

lemma placeCut_fits:
  assumes "onGrid k L" and "L \<le> 2 powi (k + 53)"
    and "onGrid k (value' c)" and "0 \<le> value' c" and "value' c \<le> L"
    and "\<forall>b\<in>set bins. fits k L b"
  shows "\<forall>b\<in>set (placeCut L c bins). fits k L b"
proof (cases "usable L c bins = []")
  case True
  with assms(3-6) show ?thesis
    by (auto simp: placeCut_none fits_single)
next
  case False
  have "fits k L (b @ [c])"
    if "b \<in> set bins" and "getBinRemainder L b = Min (set (usable L c bins))" for b
  proof -
    from that(1) assms(6) have f: "fits k L b" by simp
    from getBinRemainder_exact[OF assms(1,2) f] that(2) Min_usable_ge[OF False]
    have "value' c \<le> exactRemainder L b" by simp
    with f assms(3,4) show ?thesis
      by (auto simp: fits_def exactRemainder_def)
  qed
  with assms(6) show ?thesis
    by (auto simp: placeCut_some[OF False])
qed

lemma foldl_placeCut_fits:
  assumes "onGrid k L" and "L \<le> 2 powi (k + 53)"
    and "\<forall>c\<in>set ks. onGrid k (value' c) \<and> 0 \<le> value' c \<and> value' c \<le> L"
    and "\<forall>b\<in>set bins. fits k L b"
  shows "\<forall>b\<in>set (foldl (\<lambda>bs c. placeCut L c bs) bins ks). fits k L b"
  using assms(3,4)
proof (induction ks arbitrary: bins)
  case Nil
  then show ?case by simp
next
  case (Cons c ks)
  have "\<forall>b\<in>set (placeCut L c bins). fits k L b"
    using assms(1,2) Cons.prems by (intro placeCut_fits) simp_all
  with Cons show ?case by simp
qed

lemma solveCuts_fits:
  assumes "onGrid k L" and "0 \<le> L" and "L \<le> 2 powi (k + 53)"
    and "\<forall>c\<in>set ks. onGrid k (value' c) \<and> 0 \<le> value' c \<and> value' c \<le> L"
    and "\<forall>bs. bins = Some bs \<longrightarrow> (\<forall>b\<in>set bs. fits k L b)"
  shows "\<exists>out. solveCuts (map Inst ks) L bins = Inr out \<and> (\<forall>b\<in>set out. fits k L b)"
proof -
  let ?init = "case bins of None \<Rightarrow> [[]] | Some bs \<Rightarrow> bs"
  have "fits k L []" using assms(2) by (simp add: fits_def exactRemainder_def)
  then have init: "\<forall>b\<in>set ?init. fits k L b"
    using assms(5) by (auto split: option.splits)
  have "\<forall>c\<in>set (rev (sort_key value' ks)). onGrid k (value' c) \<and> 0 \<le> value' c \<and> value' c \<le> L"
    using assms(4) by simp
  from foldl_placeCut_fits[OF assms(1,3) this init]
  show ?thesis by (simp add: solveCuts_Inst)
qed

lemma fits_append:
  assumes "fits k L b" and "fits k L b'"
    and "sum_list (map value' b) + sum_list (map value' b') \<le> L"
  shows "fits k L (b @ b')"
  using assms by (auto simp: fits_def exactRemainder_def)

lemma merge_test_exact:
  assumes "onGrid k L" and "L \<le> 2 powi (k + 53)" and "fits k L b" and "fits k L b'"
    and "getBinRemainder L b' \<ge> jsSub L (getBinRemainder L b)"
  shows "sum_list (map value' b) + sum_list (map value' b') \<le> L"
proof -
  let ?s = "sum_list (map value' b)"
  from assms(3) have b: "\<forall>c\<in>set b. onGrid k (value' c) \<and> 0 \<le> value' c" and le: "?s \<le> L"
    by (simp_all add: fits_def exactRemainder_def)
  have nn: "0 \<le> ?s" using b by (intro sum_list_nonneg) auto
  have "onGrid k ?s" using b by (intro onGrid_sum_list) simp
  moreover have "\<bar>?s\<bar> \<le> 2 powi (k + 53)" using le nn assms(2) by simp
  ultimately have "fl ?s = ?s" by (rule fl_onGrid)
  then have "jsSub L (getBinRemainder L b) = ?s"
    by (simp add: getBinRemainder_exact[OF assms(1,2,3)] exactRemainder_def jsSub_def)
  with assms(5) show ?thesis
    by (simp add: getBinRemainder_exact[OF assms(1,2,4)] exactRemainder_def)
qed

lemma mergeInner_fits:
  "onGrid k L \<Longrightarrow> L \<le> 2 powi (k + 53) \<Longrightarrow> \<forall>b\<in>set bins. fits k L b
   \<Longrightarrow> \<forall>b\<in>set (mergeInner L i j bins). fits k L b"
proof (induction L i j bins rule: mergeInner.induct)
  case (1 L i j bins)
  note grid = "1.prems"(1,2) and all = "1.prems"(3)
  show ?case
  proof (cases "j < length bins
      \<and> getBinRemainder L (bins ! j) \<ge> jsSub L (getBinRemainder L (bins ! i))")
    case True
    let ?m = "bins ! i @ bins ! j"
    have fit: "fits k L ?m" if "i < length bins"
    proof -
      from that True all have fi: "fits k L (bins ! i)" and fj: "fits k L (bins ! j)"
        by simp_all
      from merge_test_exact[OF grid fi fj] True
      have "sum_list (map value' (bins ! i)) + sum_list (map value' (bins ! j)) \<le> L" by simp
      with fi fj show ?thesis by (rule fits_append)
    qed
    have "set (bins[i := ?m]) \<subseteq> (if i < length bins then insert ?m (set bins) else set bins)"
      using set_update_subset_insert[of bins i ?m] by (simp add: list_update_beyond)
    then have upd: "\<forall>b\<in>set (bins[i := ?m]). fits k L b"
      using fit all by (auto split: if_splits)
    have "set (take j (bins[i := ?m]) @ drop (j + 1) bins) \<subseteq> set (bins[i := ?m]) \<union> set bins"
      using set_take_subset[of j "bins[i := ?m]"] set_drop_subset[of "j + 1" bins] by auto
    with upd all have "\<forall>b\<in>set (take j (bins[i := ?m]) @ drop (j + 1) bins). fits k L b"
      by blast
    with True show ?thesis by (subst mergeInner.simps) simp
  next
    case False
    show ?thesis
    proof (cases "j < length bins")
      case True
      with False have "mergeInner L i j bins = mergeInner L i (j + 1) bins"
        by (subst mergeInner.simps) simp
      moreover have "\<forall>b\<in>set (mergeInner L i (j + 1) bins). fits k L b"
        using True False grid all by (intro "1.IH") simp_all
      ultimately show ?thesis by simp
    next
      case False
      then have "mergeInner L i j bins = bins" by (subst mergeInner.simps) simp
      with all show ?thesis by simp
    qed
  qed
qed

lemma mergeLoop_fits:
  "onGrid k L \<Longrightarrow> L \<le> 2 powi (k + 53) \<Longrightarrow> \<forall>b\<in>set bins. fits k L b
   \<Longrightarrow> \<forall>b\<in>set (mergeLoop L i bins). fits k L b"
proof (induction L i bins rule: mergeLoop.induct)
  case (1 L i bins)
  show ?case
  proof (cases "i + 1 < length bins")
    case True
    have "\<forall>b\<in>set (mergeInner L i (i + 1) bins). fits k L b"
      using "1.prems" by (rule mergeInner_fits)
    with "1.IH"[OF True "1.prems"(1,2)] True show ?thesis by (subst mergeLoop.simps) simp
  next
    case False
    with "1.prems" show ?thesis by (subst mergeLoop.simps) simp
  qed
qed

lemma compareSums_total: "\<forall>a b. \<exists>v. compareSums a b = Inr v"
  by (simp add: compareSums_def)

lemma mergeBins_fits:
  assumes "onGrid k L" and "L \<le> 2 powi (k + 53)" and "\<forall>b\<in>set bins. fits k L b"
  shows "\<exists>merged. mergeBins L bins = Inr merged \<and> (\<forall>b\<in>set merged. fits k L b)"
proof -
  from Array_sort_total[OF compareSums_total]
  obtain ys where ys: "Array_sort (\<lambda>x. False) compareSums bins = Inr ys" by blast
  from set_Array_sort[OF ys] assms(3) have "\<forall>b\<in>set (rev ys). fits k L b" by simp
  with assms(1,2) have "\<forall>b\<in>set (mergeLoop L 0 (rev ys)). fits k L b"
    by (rule mergeLoop_fits)
  with ys show ?thesis by (simp add: mergeBins_def)
qed

lemma partLoop_fits:
  assumes "onGrid k L" and "0 \<le> L" and "L \<le> 2 powi (k + 53)"
    and "\<forall>(p, vs)\<in>set parts. \<forall>v\<in>set vs. onGrid k v \<and> 0 \<le> v \<and> v \<le> L"
    and "\<forall>b\<in>set bins. fits k L b"
  shows "\<exists>out. partLoop L parts bins = Inr out \<and> (\<forall>b\<in>set out. fits k L b)"
  using assms(4,5)
proof (induction parts arbitrary: bins)
  case Nil
  then show ?case by simp
next
  case (Cons pv parts)
  obtain p vs where pv: "pv = (p, vs)" by (cases pv)
  have rest: "\<forall>(p, vs)\<in>set parts. \<forall>v\<in>set vs. onGrid k v \<and> 0 \<le> v \<and> v \<le> L"
    using Cons.prems(1) by simp
  show ?case
  proof (cases "p = ''false''")
    case True
    with Cons.IH[OF rest Cons.prems(2)] pv show ?thesis by simp
  next
    case False
    have "\<forall>c\<in>set (map (\<lambda>val. Cut val p) vs).
        onGrid k (value' c) \<and> 0 \<le> value' c \<and> value' c \<le> L"
      using Cons.prems(1) pv by auto
    from solveCuts_fits[OF assms(1,2,3) this, of None]
    obtain sub where sub: "solveCuts (map Inst (map (\<lambda>val. Cut val p) vs)) L None = Inr sub"
      "\<forall>b\<in>set sub. fits k L b"
      by auto
    have "\<forall>b\<in>set (bins @ sub). fits k L b"
      using sub(2) Cons.prems(2) by auto
    from Cons.IH[OF rest this] sub(1) pv False show ?thesis
      by (simp add: comp_def)
  qed
qed

lemma fits_sum: "fits k L b \<Longrightarrow> sum_list (map value' b) \<le> L"
  by (simp add: fits_def exactRemainder_def)

section \<open>Evaluation on concrete inputs\<close>

lemmas rem_eval = getBinRemainder_def sumCutList_def sumList_def num_eval

lemmas pack_eval = solveCuts_def sortCutsDesc_def Array_sort_def compareValues_def
  fl_le_0_iff placeCut_def Math_min_def rem_eval

section \<open>C1: capacity\<close>

text \<open>
  C1 fails as stated: the code decides whether a cut fits from the rounded sum of the
  bin. With usable length \<open>2 ^ 53 + 2\<close> and the cuts \<open>2 ^ 53\<close>, 1, 1, 1, each at most
  the usable length, every sum \<open>2 ^ 53 + 1\<close> is rounded to \<open>2 ^ 53\<close>, the computed
  remainder stays 2, and \<^verbatim>\<open>solveCuts\<close> returns one bin whose cuts add up to
  \<open>2 ^ 53 + 3\<close>.
\<close>

theorem capacity_rounding_counterexample:
  "solveCuts (map Inst [Cut (2 ^ 53) ''a'', Cut 1 ''a'', Cut 1 ''a'', Cut 1 ''a''])
      (2 ^ 53 + 2) None
     = Inr [[Cut (2 ^ 53) ''a'', Cut 1 ''a'', Cut 1 ''a'', Cut 1 ''a'']]
   \<and> sum_list (map value' [Cut (2 ^ 53) ''a'', Cut 1 ''a'', Cut 1 ''a'', Cut 1 ''a''])
     = 2 ^ 53 + 3
   \<and> (2 ^ 53 + 2 :: real) < 2 ^ 53 + 3"
  by (simp add: pack_eval)

text \<open>
  C1, as the code has it. Let the usable length, the cuts and the contents of the
  bins passed in be non-negative whole multiples of one power of two \<open>2 ^ k\<close>, the
  usable length at most \<open>2 ^ (k + 53)\<close> (so that no sum is rounded). When every cut
  is at most the usable length and every bin passed in has a non-negative remainder,
  \<^verbatim>\<open>solveCuts\<close> returns, and the cuts of every bin it returns add up to at most the
  usable length. The same holds for every bin that the merge phase of
  \<^verbatim>\<open>groupedSolve\<close> produces from the per-part solutions.
\<close>

theorem capacity_invariant:
  assumes "onGrid k lumberLen" and "0 \<le> lumberLen" and "lumberLen \<le> 2 powi (k + 53)"
    and "\<forall>c\<in>set ks. onGrid k (value' c) \<and> 0 \<le> value' c \<and> value' c \<le> lumberLen"
    and "\<forall>bs. bins = Some bs \<longrightarrow> (\<forall>b\<in>set bs. fits k lumberLen b)"
    and "\<forall>(p, vs)\<in>set parts. \<forall>v\<in>set vs. onGrid k v \<and> 0 \<le> v \<and> v \<le> lumberLen"
  shows "(\<exists>out. solveCuts (map Inst ks) lumberLen bins = Inr out
              \<and> (\<forall>b\<in>set out. sum_list (map value' b) \<le> lumberLen))
       \<and> (\<exists>bs merged. partLoop lumberLen parts [] = Inr bs
              \<and> mergeBins lumberLen bs = Inr merged
              \<and> (\<forall>b\<in>set merged. sum_list (map value' b) \<le> lumberLen))"
proof
  from solveCuts_fits[OF assms(1-5)]
  show "\<exists>out. solveCuts (map Inst ks) lumberLen bins = Inr out
              \<and> (\<forall>b\<in>set out. sum_list (map value' b) \<le> lumberLen)"
    using fits_sum by blast
next
  have "\<forall>b\<in>set ([] :: bin list). fits k lumberLen b" by simp
  from partLoop_fits[OF assms(1,2,3,6) this]
  obtain bs where bs: "partLoop lumberLen parts [] = Inr bs"
    "\<forall>b\<in>set bs. fits k lumberLen b" by blast
  from mergeBins_fits[OF assms(1,3) bs(2)]
  obtain merged where m: "mergeBins lumberLen bs = Inr merged"
    "\<forall>b\<in>set merged. fits k lumberLen b" by blast
  from m(2) have "\<forall>b\<in>set merged. sum_list (map value' b) \<le> lumberLen"
    using fits_sum by blast
  with bs(1) m(1)
  show "\<exists>bs merged. partLoop lumberLen parts [] = Inr bs
              \<and> mergeBins lumberLen bs = Inr merged
              \<and> (\<forall>b\<in>set merged. sum_list (map value' b) \<le> lumberLen)"
    by blast
qed

theorem capacity_invariant_witness:
  "(\<exists>out. solveCuts (map Inst [Cut (381 / 8) ''a'', Cut 50 ''a'', Cut (387 / 8) ''b'']) 96
            (Some [[Cut 40 ''c'', Cut (101 / 2) ''c'']]) = Inr out
         \<and> (\<forall>b\<in>set out. sum_list (map value' b) \<le> 96))
   \<and> (\<exists>bs merged.
         partLoop 96 [(''false'', [10]), (''a'', [9 / 4, 3]), (''b'', [90])] [] = Inr bs
         \<and> mergeBins 96 bs = Inr merged
         \<and> (\<forall>b\<in>set merged. sum_list (map value' b) \<le> 96))"
proof -
  have h1: "onGrid (- 3) 96" by (simp add: onGrid_def)
  have h2: "(0::real) \<le> 96" by simp
  have h3: "(96::real) \<le> 2 powi (- 3 + 53)" by simp
  have h4: "\<forall>c\<in>set [Cut (381 / 8) ''a'', Cut 50 ''a'', Cut (387 / 8) ''b''].
      onGrid (- 3) (value' c) \<and> 0 \<le> value' c \<and> value' c \<le> 96"
    by (simp add: onGrid_def)
  have h5: "\<forall>bs. Some [[Cut 40 ''c'', Cut (101 / 2) ''c'']] = Some bs
      \<longrightarrow> (\<forall>b\<in>set bs. fits (- 3) 96 b)"
    by (simp add: fits_def onGrid_def exactRemainder_def)
  have h6: "\<forall>(p, vs)\<in>set [(''false'', [10]), (''a'', [9 / 4, 3]), (''b'', [90::real])].
      \<forall>v\<in>set vs. onGrid (- 3) v \<and> 0 \<le> v \<and> v \<le> 96"
    by (simp add: onGrid_def)
  show ?thesis by (rule capacity_invariant[OF h1 h2 h3 h4 h5 h6])
qed

section \<open>The loop body places by best fit\<close>

lemma usable_Nil_iff:
  "usable L c bins = [] \<longleftrightarrow> (\<forall>b\<in>set bins. \<not> value' c \<le> getBinRemainder L b)"
  by (auto simp: usable_def filter_empty_conv)

lemma set_usable:
  "set (usable L c bins) = {r. \<exists>b\<in>set bins. r = getBinRemainder L b \<and> value' c \<le> r}"
  by (auto simp: usable_def)

lemma bestFit_Min:
  assumes "usable L c bins \<noteq> []" and "b \<in> set bins"
  shows "bestFit L c bins b \<longleftrightarrow> getBinRemainder L b = Min (set (usable L c bins))"
proof
  assume bf: "bestFit L c bins b"
  then have "getBinRemainder L b \<in> set (usable L c bins)"
    using assms(2) by (auto simp: bestFit_def set_usable)
  moreover have "\<forall>r\<in>set (usable L c bins). getBinRemainder L b \<le> r"
    using bf by (auto simp: bestFit_def set_usable)
  ultimately show "getBinRemainder L b = Min (set (usable L c bins))"
    by (intro Min_eqI[symmetric]) auto
next
  assume eq: "getBinRemainder L b = Min (set (usable L c bins))"
  have "Min (set (usable L c bins)) \<in> set (usable L c bins)"
    using assms(1) by (intro Min_in) simp_all
  then have ge: "value' c \<le> getBinRemainder L b"
    using eq by (simp add: set_usable)
  have "getBinRemainder L b \<le> getBinRemainder L b'"
    if "b' \<in> set bins" "value' c \<le> getBinRemainder L b'" for b'
  proof -
    have "getBinRemainder L b' \<in> set (usable L c bins)"
      using that by (auto simp: set_usable)
    then show ?thesis unfolding eq by (intro Min_le) simp_all
  qed
  with ge show "bestFit L c bins b" by (auto simp: bestFit_def)
qed

lemma placeCut_bestFit:
  assumes "usable L c bins \<noteq> []"
  shows "placeCut L c bins = map (\<lambda>b. if bestFit L c bins b then b @ [c] else b) bins"
  unfolding placeCut_some[OF assms]
  by (rule map_cong) (simp_all add: bestFit_Min[OF assms])

lemma ex_bestFit:
  assumes "usable L c bins \<noteq> []"
  shows "\<exists>b\<in>set bins. bestFit L c bins b"
proof -
  have "Min (set (usable L c bins)) \<in> set (usable L c bins)"
    using assms by (intro Min_in) simp_all
  then obtain b where "b \<in> set bins" "getBinRemainder L b = Min (set (usable L c bins))"
    by (auto simp: set_usable)
  then show ?thesis using bestFit_Min[OF assms] by blast
qed

lemma sorted_desc_order: "sorted (rev (map value' (rev (sort_key value' ks))))"
  by (simp add: rev_map)

section \<open>C2: descending order and best fit\<close>

text \<open>
  The doubles written \<^verbatim>\<open>0.3\<close> and \<^verbatim>\<open>0.2\<close> are \<open>5404319552844595 / 2 ^ 54\<close> and
  \<open>3602879701896397 / 2 ^ 54\<close>. The sum \<^verbatim>\<open>0.5 + 0.3\<close> lies halfway between two doubles
  and is rounded up, to \<open>3602879701896397 / 2 ^ 52\<close>, so the code finds a remainder
  of \<open>900719925474099 / 2 ^ 52\<close> in the bin, just below \<^verbatim>\<open>0.2\<close>.
\<close>

lemma fl_half: "fl (1 / 2) = 1 / 2"
  using fl_exact[of "1 / 2" "- 1"] by simp

lemma fl_sum_half_three_tenths:
  "fl (14411518807585587 / 18014398509481984) = 3602879701896397 / 4503599627370496"
  using fl_eval[of "- 1" "14411518807585587 / 18014398509481984"]
  by (simp add: roundEven_def power_int_minus)

lemma fl_rem_half_three_tenths:
  "fl (900719925474099 / 4503599627370496) = 900719925474099 / 4503599627370496"
  using fl_exact[of "900719925474099 / 4503599627370496" "- 52"]
  by (simp add: power_int_minus)

lemma rem_empty_1: "getBinRemainder 1 [] = 1"
  by (simp add: rem_eval)

lemma rem_half: "getBinRemainder 1 [Cut (1 / 2) p] = 1 / 2"
  by (simp add: rem_eval fl_half)

lemma rem_half_three_tenths:
  "getBinRemainder 1 [Cut (1 / 2) p, Cut (5404319552844595 / 18014398509481984) p]
     = 900719925474099 / 4503599627370496"
  by (simp add: rem_eval fl_half fl_sum_half_three_tenths fl_rem_half_three_tenths)

text \<open>
  C2 fails as stated. With usable length 1 and the cuts \<^verbatim>\<open>0.5\<close>, \<^verbatim>\<open>0.3\<close>, \<^verbatim>\<open>0.2\<close>, the bin
  that holds \<^verbatim>\<open>0.5\<close> and \<^verbatim>\<open>0.3\<close> has a remainder of exactly \<^verbatim>\<open>0.2\<close>, the length of the
  last cut, and it is the only bin; \<^verbatim>\<open>solveCuts\<close> computes a smaller remainder for it
  and opens a new bin for the last cut.
\<close>

theorem best_fit_rounding_counterexample:
  "solveCuts (map Inst [Cut (1 / 2) ''a'', Cut (5404319552844595 / 18014398509481984) ''a'',
        Cut (3602879701896397 / 18014398509481984) ''a'']) 1 None
     = Inr [[Cut (1 / 2) ''a'', Cut (5404319552844595 / 18014398509481984) ''a''],
            [Cut (3602879701896397 / 18014398509481984) ''a'']]
   \<and> exactRemainder 1 [Cut (1 / 2) ''a'', Cut (5404319552844595 / 18014398509481984) ''a'']
     = value' (Cut (3602879701896397 / 18014398509481984) ''a'')"
proof -
  have "solveCuts (map Inst [Cut (1 / 2) ''a'', Cut (5404319552844595 / 18014398509481984) ''a'',
        Cut (3602879701896397 / 18014398509481984) ''a'']) 1 None
     = Inr [[Cut (1 / 2) ''a'', Cut (5404319552844595 / 18014398509481984) ''a''],
            [Cut (3602879701896397 / 18014398509481984) ''a'']]"
    unfolding solveCuts_Inst
    by (simp add: placeCut_def Math_min_def rem_empty_1 rem_half rem_half_three_tenths)
  then show ?thesis by (simp add: exactRemainder_def)
qed

text \<open>
  C2, as the code has it, with the remainder of a bin read as the code computes it
  (\<open>getBinRemainder\<close>: rounded sum, rounded difference). \<^verbatim>\<open>solveCuts\<close> runs its loop
  body over the cuts in an order that is a rearrangement of the input and descending
  in length. The loop body, on the current bins \<open>cur\<close> and the next cut \<open>c\<close>: when no
  bin has a computed remainder of at least the length of the cut, a new bin holding
  only the cut is appended; otherwise the bins keep their places, some bin receives
  the cut, and a bin receives the cut only if its computed remainder is at least the
  length of the cut and is the smallest such remainder (best fit, whatever its
  position).
\<close>

theorem solveCuts_best_fit:
  "(\<exists>order. mset order = mset ks \<and> sorted (rev (map value' order)) \<and>
      solveCuts (map Inst ks) lumberLen bins =
        Inr (foldl (\<lambda>bs k. placeCut lumberLen k bs)
               (case bins of None \<Rightarrow> [[]] | Some bs \<Rightarrow> bs) order))
   \<and> ((\<forall>b\<in>set cur. \<not> value' c \<le> getBinRemainder lumberLen b)
        \<longrightarrow> placeCut lumberLen c cur = cur @ [[c]])
   \<and> ((\<exists>b\<in>set cur. value' c \<le> getBinRemainder lumberLen b)
        \<longrightarrow> placeCut lumberLen c cur
              = map (\<lambda>b. if bestFit lumberLen c cur b then b @ [c] else b) cur
            \<and> (\<exists>b\<in>set cur. bestFit lumberLen c cur b))"
proof (intro conjI impI)
  let ?order = "rev (sort_key value' ks)"
  have "mset ?order = mset ks" by simp
  moreover have "sorted (rev (map value' ?order))" by (rule sorted_desc_order)
  ultimately show "\<exists>order. mset order = mset ks \<and> sorted (rev (map value' order)) \<and>
      solveCuts (map Inst ks) lumberLen bins =
        Inr (foldl (\<lambda>bs k. placeCut lumberLen k bs)
               (case bins of None \<Rightarrow> [[]] | Some bs \<Rightarrow> bs) order)"
    using solveCuts_Inst[of ks lumberLen bins] by blast
next
  assume "\<forall>b\<in>set cur. \<not> value' c \<le> getBinRemainder lumberLen b"
  then have "usable lumberLen c cur = []" by (simp add: usable_Nil_iff)
  then show "placeCut lumberLen c cur = cur @ [[c]]" by (rule placeCut_none)
next
  assume "\<exists>b\<in>set cur. value' c \<le> getBinRemainder lumberLen b"
  then have ne: "usable lumberLen c cur \<noteq> []" by (simp add: usable_Nil_iff)
  show "placeCut lumberLen c cur
          = map (\<lambda>b. if bestFit lumberLen c cur b then b @ [c] else b) cur"
    by (rule placeCut_bestFit[OF ne])
  show "\<exists>b\<in>set cur. bestFit lumberLen c cur b" by (rule ex_bestFit[OF ne])
qed

theorem solveCuts_best_fit_witness:
  "placeCut 96 (Cut 97 ''m'') [[Cut 40 ''b''], [Cut 30 ''a'', Cut 30 ''a'']]
     = [[Cut 40 ''b''], [Cut 30 ''a'', Cut 30 ''a''], [Cut 97 ''m'']]
   \<and> placeCut 96 (Cut 10 ''m'') [[Cut 40 ''b''], [Cut 30 ''a'', Cut 30 ''a'']]
     = [[Cut 40 ''b''], [Cut 30 ''a'', Cut 30 ''a'', Cut 10 ''m'']]"
  using solveCuts_best_fit[of "[]" 96 None "[[Cut 40 ''b''], [Cut 30 ''a'', Cut 30 ''a'']]"
          "Cut 97 ''m''"]
        solveCuts_best_fit[of "[]" 96 None "[[Cut 40 ''b''], [Cut 30 ''a'', Cut 30 ''a'']]"
          "Cut 10 ''m''"]
  by (simp add: rem_eval bestFit_def)

section \<open>C3: a tie appends the cut to every tied bin\<close>

lemma solveCuts_single:
  "solveCuts [Inst c] L (Some cur) = Inr (placeCut L c cur)"
  using solveCuts_Inst[of "[c]" L "Some cur"] by simp

text \<open>
  C3 fails as stated: whether two bins tie is decided on the computed remainders.
  With usable length \<open>2 ^ 53 + 4\<close>, the bins [\<open>2 ^ 53\<close>, 1, 1] and [1, 1, \<open>2 ^ 53\<close>]
  both have a remainder of 2 and so tie for the cut 1; the code computes 4 for the
  first (each sum \<open>2 ^ 53 + 1\<close> is rounded to \<open>2 ^ 53\<close>) and 2 for the second, and
  appends the cut to the second bin only.
\<close>

theorem tie_rounding_counterexample:
  "exactRemainder (2 ^ 53 + 4) [Cut (2 ^ 53) ''a'', Cut 1 ''a'', Cut 1 ''a''] = 2
   \<and> exactRemainder (2 ^ 53 + 4) [Cut 1 ''b'', Cut 1 ''b'', Cut (2 ^ 53) ''b''] = 2
   \<and> solveCuts [Inst (Cut 1 ''m'')] (2 ^ 53 + 4)
        (Some [[Cut (2 ^ 53) ''a'', Cut 1 ''a'', Cut 1 ''a''],
               [Cut 1 ''b'', Cut 1 ''b'', Cut (2 ^ 53) ''b'']])
     = Inr [[Cut (2 ^ 53) ''a'', Cut 1 ''a'', Cut 1 ''a''],
            [Cut 1 ''b'', Cut 1 ''b'', Cut (2 ^ 53) ''b'', Cut 1 ''m'']]"
  by (simp add: exactRemainder_def pack_eval)

text \<open>
  C3, as the code has it, with ties read on the computed remainders. When more than
  one of the bins passed to \<^verbatim>\<open>solveCuts\<close> is a best fit for the cut to place (they tie
  for the smallest usable computed remainder), \<^verbatim>\<open>solveCuts\<close> returns the bins with the
  cut appended to every one of them, so the cut then lies in as many bins as are tied.
\<close>

theorem tie_appends_to_all:
  assumes "1 < length (tied lumberLen c cur)"
  shows "\<exists>out. solveCuts [Inst c] lumberLen (Some cur) = Inr out
           \<and> length out = length cur
           \<and> (\<forall>i<length cur. bestFit lumberLen c cur (cur ! i) \<longrightarrow> out ! i = cur ! i @ [c])
           \<and> length (filter (\<lambda>(old, new). new = old @ [c]) (zip cur out))
               = length (tied lumberLen c cur)"
proof -
  from assms have "tied lumberLen c cur \<noteq> []" by auto
  then obtain b where "b \<in> set (tied lumberLen c cur)"
    using hd_in_set by blast
  then have "b \<in> set cur" "bestFit lumberLen c cur b"
    by (simp_all add: tied_def)
  then have "usable lumberLen c cur \<noteq> []"
    by (auto simp: usable_Nil_iff bestFit_def)
  then have eq: "placeCut lumberLen c cur
      = map (\<lambda>b. if bestFit lumberLen c cur b then b @ [c] else b) cur"
    by (rule placeCut_bestFit)
  have "filter (\<lambda>(old, new). new = old @ [c])
          (zip xs (map (\<lambda>b. if P b then b @ [c] else b) xs))
        = map (\<lambda>b. (b, b @ [c])) (filter P xs)" for xs :: "bin list" and P
    by (induction xs) auto
  then show ?thesis
    by (simp add: solveCuts_single eq tied_def)
qed

theorem tie_appends_to_all_witness:
  "\<exists>out. solveCuts [Inst (Cut 4 ''a'')] 10 (Some [[Cut 6 ''a''], [Cut 6 ''b'']]) = Inr out
     \<and> length out = 2
     \<and> out ! 0 = [Cut 6 ''a'', Cut 4 ''a''] \<and> out ! 1 = [Cut 6 ''b'', Cut 4 ''a'']
     \<and> length (filter (\<lambda>(old, new). new = old @ [Cut 4 ''a''])
          (zip [[Cut 6 ''a''], [Cut 6 ''b'']] out)) = 2"
proof -
  let ?c = "Cut 4 ''a''"
  let ?cur = "[[Cut 6 ''a''], [Cut 6 ''b'']]"
  have b0: "bestFit 10 ?c ?cur (?cur ! 0)" and b1: "bestFit 10 ?c ?cur (?cur ! 1)"
    by (simp_all add: bestFit_def rem_eval)
  have t: "length (tied 10 ?c ?cur) = 2"
    by (simp add: tied_def bestFit_def rem_eval)
  then have h: "1 < length (tied 10 ?c ?cur)" by simp
  from tie_appends_to_all[OF h] obtain out where
    out: "solveCuts [Inst ?c] 10 (Some ?cur) = Inr out" "length out = length ?cur"
      "\<forall>i<length ?cur. bestFit 10 ?c ?cur (?cur ! i) \<longrightarrow> out ! i = ?cur ! i @ [?c]"
      "length (filter (\<lambda>(old, new). new = old @ [?c]) (zip ?cur out))
         = length (tied 10 ?c ?cur)"
    by blast
  from out(3)[rule_format, of 0] b0 have o0: "out ! 0 = [Cut 6 ''a'', Cut 4 ''a'']" by simp
  from out(3)[rule_format, of 1] b1 have o1: "out ! 1 = [Cut 6 ''b'', Cut 4 ''a'']" by simp
  from out(2) have l: "length out = 2" by simp
  from out(4) t have f: "length (filter (\<lambda>(old, new). new = old @ [?c]) (zip ?cur out)) = 2"
    by simp
  from out(1) l o0 o1 f show ?thesis by blast
qed

section \<open>C4: without ties every cut lands in exactly one bin\<close>

lemma mset_concat_map_append:
  "mset (concat (map (\<lambda>b. if P b then b @ [c] else b) bins))
     = mset (concat bins) + replicate_mset (length (filter P bins)) c"
  by (induction bins) simp_all

lemma placeCut_mset:
  assumes "length (tied L c bins) < 2"
  shows "mset (concat (placeCut L c bins)) = add_mset c (mset (concat bins))"
proof (cases "usable L c bins = []")
  case True
  then show ?thesis by (simp add: placeCut_none)
next
  case False
  from ex_bestFit[OF False] have "tied L c bins \<noteq> []"
    by (auto simp: tied_def filter_empty_conv)
  with assms have "length (filter (bestFit L c bins) bins) = 1"
    by (cases "tied L c bins") (simp_all add: tied_def)
  then show ?thesis
    by (simp add: placeCut_bestFit[OF False] mset_concat_map_append)
qed

lemma foldl_placeCut_mset:
  "tieFree L (map Inst ks) bins \<Longrightarrow>
   mset (concat (foldl (\<lambda>bs k. placeCut L k bs) bins ks)) = mset ks + mset (concat bins)"
  by (induction ks arbitrary: bins) (simp_all add: placeCut_mset)

text \<open>
  C4 fails as stated, again because ties are decided on the computed remainders. With
  usable length \<open>2 ^ 53 + 2\<close>, the bins [\<open>2 ^ 53\<close>, 1] and [\<open>2 ^ 53\<close>] have the
  remainders 1 and 2, so for the cut 1 the first bin alone is the best fit; the code
  computes the remainder 2 for both and appends the cut to both.
\<close>

theorem no_tie_rounding_counterexample:
  "exactRemainder (2 ^ 53 + 2) [Cut (2 ^ 53) ''a'', Cut 1 ''a''] = 1
   \<and> exactRemainder (2 ^ 53 + 2) [Cut (2 ^ 53) ''b''] = 2
   \<and> solveCuts [Inst (Cut 1 ''m'')] (2 ^ 53 + 2)
        (Some [[Cut (2 ^ 53) ''a'', Cut 1 ''a''], [Cut (2 ^ 53) ''b'']])
     = Inr [[Cut (2 ^ 53) ''a'', Cut 1 ''a'', Cut 1 ''m''], [Cut (2 ^ 53) ''b'', Cut 1 ''m'']]"
  by (simp add: exactRemainder_def pack_eval)

text \<open>
  C4, as the code has it, with ties read on the computed remainders. When no step of
  the loop of \<^verbatim>\<open>solveCuts\<close> has two or more bins tied for the best fit, \<^verbatim>\<open>solveCuts\<close>
  returns, and the cuts in the returned bins are, counted with multiplicity, the cuts
  of the input together with the cuts that the bins passed in already held: no cut is
  lost and none is duplicated.
\<close>

theorem no_tie_each_cut_once:
  assumes "noTies (map Inst ks) lumberLen bins"
  shows "\<exists>out. solveCuts (map Inst ks) lumberLen bins = Inr out
           \<and> mset (concat out)
             = mset ks + mset (concat (case bins of None \<Rightarrow> [[]] | Some bs \<Rightarrow> bs))"
proof -
  let ?init = "case bins of None \<Rightarrow> [[]] | Some bs \<Rightarrow> bs"
  let ?order = "rev (sort_key value' ks)"
  from assms have "tieFree lumberLen (map Inst ?order) ?init"
    by (simp add: noTies_def sortCutsDesc_Inst)
  then have "mset (concat (foldl (\<lambda>bs k. placeCut lumberLen k bs) ?init ?order))
      = mset ?order + mset (concat ?init)"
    by (rule foldl_placeCut_mset)
  then show ?thesis
    by (simp add: solveCuts_Inst)
qed

theorem no_tie_each_cut_once_witness:
  "solveCuts (map Inst [Cut 48 ''a'', Cut 48 ''a'', Cut 48 ''a'']) 96 None
     = Inr [[Cut 48 ''a'', Cut 48 ''a''], [Cut 48 ''a'']]
   \<and> mset (concat [[Cut 48 ''a'', Cut 48 ''a''], [Cut 48 ''a'']])
     = mset [Cut 48 ''a'', Cut 48 ''a'', Cut 48 ''a'']"
proof -
  have h: "noTies (map Inst [Cut 48 ''a'', Cut 48 ''a'', Cut 48 ''a'']) 96 None"
    by (simp add: noTies_def tied_def bestFit_def pack_eval)
  have e: "solveCuts (map Inst [Cut 48 ''a'', Cut 48 ''a'', Cut 48 ''a'']) 96 None
     = Inr [[Cut 48 ''a'', Cut 48 ''a''], [Cut 48 ''a'']]"
    by (simp add: pack_eval)
  from no_tie_each_cut_once[OF h] e show ?thesis by simp
qed

section \<open>C5: when solveCuts throws\<close>

lemma compareValues_Null_left: "compareValues Null b = Inl TypeError"
  by (simp add: compareValues_def)

lemma compareValues_Null_right: "compareValues a Null = Inl TypeError"
  by (cases a) (simp_all add: compareValues_def)

lemma compareValues_defined:
  assumes "a \<noteq> Null" and "a \<noteq> Undefined" and "b \<noteq> Null" and "b \<noteq> Undefined"
  shows "\<exists>v. compareValues a b = Inr v"
  using assms by (cases a; cases b) (simp_all add: compareValues_def)

lemma insertBy_defined:
  assumes "x \<noteq> Null" and "x \<noteq> Undefined" and "Null \<notin> set ys" and "Undefined \<notin> set ys"
  shows "\<exists>zs. insertBy compareValues x ys = Inr zs"
  using assms(3,4)
proof (induction ys)
  case Nil
  then show ?case by simp
next
  case (Cons y ys)
  from Cons.prems have "y \<noteq> Null" "y \<noteq> Undefined" by auto
  from compareValues_defined[OF assms(1,2) this] obtain v where v: "compareValues x y = Inr v"
    by blast
  from Cons obtain zs where "insertBy compareValues x ys = Inr zs" by auto
  with v show ?case by simp
qed

lemma insertBy_Null: "ys \<noteq> [] \<Longrightarrow> insertBy compareValues Null ys = Inl TypeError"
  by (cases ys) (simp_all add: compareValues_Null_left)

lemma insertBy_onto_Null: "insertBy compareValues x [Null] = Inl TypeError"
  by (simp add: compareValues_Null_right)

text \<open>
  The sort of the elements that are not undefined throws exactly when \<^verbatim>\<open>null\<close> is
  among them and they are two or more (the comparator then meets \<^verbatim>\<open>null\<close>).
\<close>

lemma sortLoop_compareValues:
  assumes "Undefined \<notin> set xs"
  shows "if Null \<in> set xs \<and> 2 \<le> length xs
         then sortLoop compareValues xs = Inl TypeError
         else \<exists>ys. sortLoop compareValues xs = Inr ys"
  using assms
proof (induction xs)
  case Nil
  then show ?case by simp
next
  case (Cons x xs)
  from Cons.prems have u: "Undefined \<notin> set xs" "x \<noteq> Undefined" by auto
  show ?case
  proof (cases "Null \<in> set xs \<and> 2 \<le> length xs")
    case True
    with Cons.IH[OF u(1)] show ?thesis by simp
  next
    case False
    with Cons.IH[OF u(1)] obtain ys where ys: "sortLoop compareValues xs = Inr ys" by auto
    from mset_sortLoop[OF ys] have m: "mset ys = mset xs" .
    then have s: "set ys = set xs" by (metis set_mset_mset)
    from m have l: "length ys = length xs" by (metis size_mset)
    show ?thesis
    proof (cases "xs = []")
      case True
      with ys show ?thesis by simp
    next
      case ne: False
      with l have yne: "ys \<noteq> []" by auto
      show ?thesis
      proof (cases "x = Null")
        case True
        with ys insertBy_Null[OF yne] ne show ?thesis
          by (cases xs) simp_all
      next
        case xn: False
        show ?thesis
        proof (cases "Null \<in> set xs")
          case True
          with False have "\<not> 2 \<le> length xs" by simp
          moreover from ne have "length xs \<noteq> 0" by simp
          ultimately have "length xs = 1" by linarith
          then obtain a where "xs = [a]" by (cases xs) auto
          with True have xs: "xs = [Null]" by simp
          with m have "ys = [Null]" by simp
          with ys insertBy_onto_Null[of x] xs show ?thesis by simp
        next
          case False
          with s u(1) have "Null \<notin> set ys" "Undefined \<notin> set ys" by simp_all
          from insertBy_defined[OF xn u(2) this] obtain zs
            where "insertBy compareValues x ys = Inr zs" by blast
          with ys False xn show ?thesis by auto
        qed
      qed
    qed
  qed
qed

lemma sortCutsDesc_TypeError:
  assumes "Null \<in> set cs" and "2 \<le> length (filter (\<lambda>x. x \<noteq> Undefined) cs)"
  shows "sortCutsDesc cs = Inl TypeError"
proof -
  let ?d = "filter (\<lambda>x. x \<noteq> Undefined) cs"
  have "Undefined \<notin> set ?d" by simp
  from sortLoop_compareValues[OF this] assms
  have "sortLoop compareValues ?d = Inl TypeError" by simp
  then show ?thesis by (simp add: sortCutsDesc_def Array_sort_def)
qed

lemma sortCutsDesc_returns:
  assumes "\<not> (Null \<in> set cs \<and> 2 \<le> length (filter (\<lambda>x. x \<noteq> Undefined) cs))"
  shows "\<exists>ys. sortCutsDesc cs = Inr ys \<and> set ys = set cs"
proof -
  let ?d = "filter (\<lambda>x. x \<noteq> Undefined) cs"
  have "Undefined \<notin> set ?d" by simp
  from sortLoop_compareValues[OF this] assms
  obtain zs where "sortLoop compareValues ?d = Inr zs" by auto
  then have a: "Array_sort (\<lambda>x. x = Undefined) compareValues cs
      = Inr (zs @ filter (\<lambda>x. x = Undefined) cs)"
    by (simp add: Array_sort_def)
  from a have "sortCutsDesc cs = Inr (rev (zs @ filter (\<lambda>x. x = Undefined) cs))"
    by (simp add: sortCutsDesc_def)
  moreover have "set (rev (zs @ filter (\<lambda>x. x = Undefined) cs)) = set cs"
    using set_Array_sort[OF a] by (simp only: set_rev)
  ultimately show ?thesis by blast
qed

lemma sortCutsDesc_Inl: "sortCutsDesc cs = Inl e \<Longrightarrow> e = TypeError"
  using sortCutsDesc_TypeError[of cs] sortCutsDesc_returns[of cs] by (cases
      "Null \<in> set cs \<and> 2 \<le> length (filter (\<lambda>x. x \<noteq> Undefined) cs)") auto






section \<open>Evaluation of the merge\<close>

lemma mergeInner_stop: "\<not> j < length bins \<Longrightarrow> mergeInner L i j bins = bins"
  by (subst mergeInner.simps) simp

lemma mergeInner_merge:
  "j < length bins \<Longrightarrow>
   getBinRemainder L (bins ! j) \<ge> jsSub L (getBinRemainder L (bins ! i)) \<Longrightarrow>
   mergeInner L i j bins = take j (bins[i := bins ! i @ bins ! j]) @ drop (j + 1) bins"
  by (subst mergeInner.simps) simp

lemma mergeInner_skip:
  "j < length bins \<Longrightarrow>
   \<not> getBinRemainder L (bins ! j) \<ge> jsSub L (getBinRemainder L (bins ! i)) \<Longrightarrow>
   mergeInner L i j bins = mergeInner L i (j + 1) bins"
  by (subst mergeInner.simps) simp

lemma mergeLoop_step:
  "i + 1 < length bins \<Longrightarrow>
   mergeLoop L i bins = mergeLoop L (i + 1) (mergeInner L i (i + 1) bins)"
  by (subst mergeLoop.simps) simp

lemma mergeLoop_stop: "\<not> i + 1 < length bins \<Longrightarrow> mergeLoop L i bins = bins"
  by (subst mergeLoop.simps) simp

lemmas merge_eval = mergeBins_def Array_sort_def compareSums_def fl_le_0_iff rem_eval
  mergeLoop_step mergeLoop_stop mergeInner_stop mergeInner_merge mergeInner_skip

section \<open>C8: the scenario with two parts and one miscellaneous cut\<close>

lemma scenario_partA:
  "solveCuts (map (\<lambda>val. Inst (Cut val ''partA'')) [30, 30]) 96 None
    = Inr [[Cut 30 ''partA'', Cut 30 ''partA'']]"
  by (simp add: pack_eval)

lemma scenario_partB:
  "solveCuts (map (\<lambda>val. Inst (Cut val ''partB'')) [40]) 96 None = Inr [[Cut 40 ''partB'']]"
  by (simp add: pack_eval)

lemma scenario_parts:
  "partLoop 96 [(''false'', [10]), (''partA'', [30, 30]), (''partB'', [40])] []
    = Inr [[Cut 30 ''partA'', Cut 30 ''partA''], [Cut 40 ''partB'']]"
  using scenario_partA scenario_partB by simp

lemma scenario_merge:
  "mergeBins 96 [[Cut 30 ''partA'', Cut 30 ''partA''], [Cut 40 ''partB'']]
    = Inr [[Cut 30 ''partA'', Cut 30 ''partA''], [Cut 40 ''partB'']]"
  by (simp add: merge_eval)

lemma scenario_misc:
  "solveCuts (map (\<lambda>val. Inst (Cut val ''false'')) [10]) 96
      (Some [[Cut 30 ''partA'', Cut 30 ''partA''], [Cut 40 ''partB'']])
    = Inr [[Cut 30 ''partA'', Cut 30 ''partA'', Cut 10 ''false''], [Cut 40 ''partB'']]"
  by (simp add: pack_eval)

text \<open>
  C8. On the request with partA = [30, 30], partB = [40], miscellaneous cuts [10] and
  usable length 96 (kerf 0): the per-part packing gives the bins [30, 30] and [40],
  with remainders 36 and 56; the merge changes nothing, since the 60 of the first bin
  exceed the 56 left in the second; the miscellaneous cut goes to the bin with
  remainder 36, which is left with 26. Both versions of \<^verbatim>\<open>groupedSolve\<close> give the two
  bins [30, 30, 10] and [40].
\<close>

theorem grouped_scenario:
  "partLoop 96 [(''false'', [10]), (''partA'', [30, 30]), (''partB'', [40])] []
     = Inr [[Cut 30 ''partA'', Cut 30 ''partA''], [Cut 40 ''partB'']]
   \<and> getBinRemainder 96 [Cut 30 ''partA'', Cut 30 ''partA''] = 36
   \<and> getBinRemainder 96 [Cut 40 ''partB''] = 56
   \<and> sumCutList [Cut 30 ''partA'', Cut 30 ''partA''] = 60
   \<and> mergeBins 96 [[Cut 30 ''partA'', Cut 30 ''partA''], [Cut 40 ''partB'']]
     = Inr [[Cut 30 ''partA'', Cut 30 ''partA''], [Cut 40 ''partB'']]
   \<and> groupedSolve \<lparr>effectiveLumberLen = 96,
        cuts = [(''false'', [10]), (''partA'', [30, 30]), (''partB'', [40])]\<rparr>
     = Inr [[Cut 30 ''partA'', Cut 30 ''partA'', Cut 10 ''false''], [Cut 40 ''partB'']]
   \<and> getBinRemainder 96 [Cut 30 ''partA'', Cut 30 ''partA'', Cut 10 ''false''] = 26
   \<and> groupedSolve_unmerged \<lparr>effectiveLumberLen = 96,
        cuts = [(''false'', [10]), (''partA'', [30, 30]), (''partB'', [40])]\<rparr>
     = Inr [[Cut 30 ''partA'', Cut 30 ''partA'', Cut 10 ''false''], [Cut 40 ''partB'']]"
proof -
  have "groupedSolve \<lparr>effectiveLumberLen = 96,
        cuts = [(''false'', [10]), (''partA'', [30, 30]), (''partB'', [40])]\<rparr>
     = Inr [[Cut 30 ''partA'', Cut 30 ''partA'', Cut 10 ''false''], [Cut 40 ''partB'']]"
    by (simp add: groupedSolve_def miscCuts_def scenario_parts scenario_merge
        scenario_misc[simplified] del: partLoop.simps)
  moreover have "groupedSolve_unmerged \<lparr>effectiveLumberLen = 96,
        cuts = [(''false'', [10]), (''partA'', [30, 30]), (''partB'', [40])]\<rparr>
     = Inr [[Cut 30 ''partA'', Cut 30 ''partA'', Cut 10 ''false''], [Cut 40 ''partB'']]"
    by (simp add: groupedSolve_unmerged_def miscCuts_def scenario_parts
        scenario_misc[simplified] del: partLoop.simps)
  moreover have "getBinRemainder 96 [Cut 30 ''partA'', Cut 30 ''partA''] = 36"
    "getBinRemainder 96 [Cut 40 ''partB''] = 56"
    "sumCutList [Cut 30 ''partA'', Cut 30 ''partA''] = 60"
    "getBinRemainder 96 [Cut 30 ''partA'', Cut 30 ''partA'', Cut 10 ''false''] = 26"
    by (simp_all add: rem_eval)
  ultimately show ?thesis
    using scenario_parts scenario_merge by blast
qed

section \<open>C7: board counts of the two solvers\<close>

lemma insertBy_compareNumbers: "insertBy compareNumbers k ys = Inr (k # ys)"
  by (cases ys) (simp_all add: compareNumbers_def)

lemma sortLoop_compareNumbers: "sortLoop compareNumbers ks = Inr ks"
  by (induction ks) (simp_all add: insertBy_compareNumbers)

lemma sortDesc_rev: "sortDesc ks = Inr (rev ks)"
  by (simp add: sortDesc_def Array_sort_def sortLoop_compareNumbers)

lemma foldl_append_concat: "foldl (\<lambda>a b. a @ b) v rest = v @ concat rest"
  by (induction rest arbitrary: v) simp_all

text \<open>The Cuts that \<^verbatim>\<open>naiveSolve\<close> makes from the request, in the order of the parts.\<close>

lemma naiveSolve_flat:
  assumes "cuts inp \<noteq> []"
  shows "naiveSolve inp =
    solveCuts (map Inst (rev (concat (map (\<lambda>(key, vs). map (\<lambda>val. Cut val key) vs) (cuts inp)))))
      (effectiveLumberLen inp) None"
proof -
  define flat where "flat = concat (map (\<lambda>(key, vs). map (\<lambda>val. Cut val key) vs) (cuts inp))"
  obtain kv rest where c: "cuts inp = kv # rest"
    using assms by (cases "cuts inp") auto
  have eq: "foldl (\<lambda>a b. a @ b) (map (\<lambda>val. Cut val (fst kv)) (snd kv))
          (map (\<lambda>p. map (\<lambda>val. Cut val (fst p)) (snd p)) rest)
      = flat"
    by (simp add: flat_def c foldl_append_concat case_prod_unfold)
  have "naiveSolve inp = solveCuts (map Inst (rev flat)) (effectiveLumberLen inp) None"
    by (simp add: naiveSolve_def c case_prod_unfold eq sortDesc_rev)
  then show ?thesis by (simp only: flat_def)
qed

lemma placeCut_first:
  "double L \<Longrightarrow> value' c \<le> L \<Longrightarrow> placeCut L c [[]] = [[c]]"
  by (simp add: placeCut_def getBinRemainder_Nil double_def Math_min_def)

lemma placeCut_Nil: "placeCut L c [] = [[c]]"
  by (simp add: placeCut_def)

lemma sort_key_rev_same_part:
  "sort_key value' (rev (map (\<lambda>val. Cut val p) vs)) = sort_key value' (map (\<lambda>val. Cut val p) vs)"
proof (rule sort_key_inj_key_eq)
  show "mset (rev (map (\<lambda>val. Cut val p) vs)) = mset (sort_key value' (map (\<lambda>val. Cut val p) vs))"
    by simp
  show "inj_on value' (set (rev (map (\<lambda>val. Cut val p) vs)))"
    by (auto simp: inj_on_def)
  show "sorted (map value' (sort_key value' (map (\<lambda>val. Cut val p) vs)))"
    by simp
qed

lemma mergeBins_Nil: "mergeBins L [] = Inr []"
  by (simp add: mergeBins_def Array_sort_def mergeLoop_stop)

text \<open>
  C7, as the code has it. On a request whose cuts are all miscellaneous (no named
  part), with at least one cut and every cut at most the usable length (a double, as
  every number of the program), \<^verbatim>\<open>naiveSolve\<close> and \<^verbatim>\<open>groupedSolve\<close> give the same bins,
  so the first uses at most as many as the second.
\<close>

theorem ungrouped_only_same_count:
  assumes "cuts inp = [(''false'', vs)]" and "vs \<noteq> []"
    and "\<forall>v\<in>set vs. v \<le> effectiveLumberLen inp"
    and "double (effectiveLumberLen inp)"
  shows "\<exists>n g. naiveSolve inp = Inr n \<and> groupedSolve inp = Inr g \<and> n = g
           \<and> length n \<le> length g"
proof -
  let ?L = "effectiveLumberLen inp"
  let ?ks = "map (\<lambda>val. Cut val ''false'') vs"
  let ?order = "rev (sort_key value' ?ks)"
  have "length ?order = length vs" by simp
  with assms(2) have "?order \<noteq> []" by (metis length_0_conv)
  then obtain c rest where order: "?order = c # rest" by (cases ?order) auto
  have "c \<in> set ?ks"
    using arg_cong[OF order, of set] by auto
  then have fits: "value' c \<le> ?L" using assms(3) by auto
  have "naiveSolve inp = solveCuts (map Inst (rev ?ks)) ?L None"
    using naiveSolve_flat[of inp] by (simp add: assms(1))
  also have "\<dots> = Inr (foldl (\<lambda>bs k. placeCut ?L k bs) [[]] ?order)"
    by (simp add: solveCuts_Inst sort_key_rev_same_part del: foldl_Cons)
  also have "foldl (\<lambda>bs k. placeCut ?L k bs) [[]] ?order
      = foldl (\<lambda>bs k. placeCut ?L k bs) [[c]] rest"
    by (simp add: order placeCut_first[OF assms(4) fits])
  finally have n: "naiveSolve inp = Inr (foldl (\<lambda>bs k. placeCut ?L k bs) [[c]] rest)" .
  have "groupedSolve inp = solveCuts (map Inst ?ks) ?L (Some [])"
    by (simp add: groupedSolve_def assms(1) mergeBins_Nil miscCuts_def comp_def)
  also have "\<dots> = Inr (foldl (\<lambda>bs k. placeCut ?L k bs) [] ?order)"
    using solveCuts_Inst[of ?ks ?L "Some []"] by simp
  also have "foldl (\<lambda>bs k. placeCut ?L k bs) [] ?order
      = foldl (\<lambda>bs k. placeCut ?L k bs) [[c]] rest"
    by (simp add: order placeCut_Nil)
  finally have "groupedSolve inp = Inr (foldl (\<lambda>bs k. placeCut ?L k bs) [[c]] rest)" .
  with n show ?thesis by simp
qed

theorem ungrouped_only_same_count_witness:
  "\<exists>n g. naiveSolve \<lparr>effectiveLumberLen = 96, cuts = [(''false'', [48, 48, 48])]\<rparr> = Inr n
     \<and> groupedSolve \<lparr>effectiveLumberLen = 96, cuts = [(''false'', [48, 48, 48])]\<rparr> = Inr g
     \<and> n = g \<and> length n \<le> length g"
proof -
  have h1: "cuts \<lparr>effectiveLumberLen = 96, cuts = [(''false'', [48, 48, 48])]\<rparr>
      = [(''false'', [48, 48, 48])]" by simp
  have h2: "[48, 48, 48 :: real] \<noteq> []" by simp
  have h3: "\<forall>v\<in>set [48, 48, 48].
      v \<le> effectiveLumberLen \<lparr>effectiveLumberLen = 96, cuts = [(''false'', [48, 48, 48])]\<rparr>"
    by simp
  have h4: "double (effectiveLumberLen
      \<lparr>effectiveLumberLen = 96, cuts = [(''false'', [48, 48, 48])]\<rparr>)"
    by (simp add: double_def fl_int)
  show ?thesis by (rule ungrouped_only_same_count[OF h1 h2 h3 h4])
qed

text \<open>
  C7 fails as stated. With usable length 13, partA = [6, 4, 3], partB = [5, 5, 3] and no
  miscellaneous cut, each part fills one board exactly, so \<^verbatim>\<open>groupedSolve\<close> uses two
  boards, while best-fit-decreasing over all six cuts (\<^verbatim>\<open>naiveSolve\<close>) uses three.
\<close>

lemma anomaly_partA:
  "solveCuts (map (\<lambda>val. Inst (Cut val ''partA'')) [6, 4, 3]) 13 None
    = Inr [[Cut 6 ''partA'', Cut 4 ''partA'', Cut 3 ''partA'']]"
  by (simp add: pack_eval)

lemma anomaly_partB:
  "solveCuts (map (\<lambda>val. Inst (Cut val ''partB'')) [5, 5, 3]) 13 None
    = Inr [[Cut 5 ''partB'', Cut 5 ''partB'', Cut 3 ''partB'']]"
  by (simp add: pack_eval)

lemma anomaly_parts:
  "partLoop 13 [(''false'', []), (''partA'', [6, 4, 3]), (''partB'', [5, 5, 3])] []
    = Inr [[Cut 6 ''partA'', Cut 4 ''partA'', Cut 3 ''partA''],
           [Cut 5 ''partB'', Cut 5 ''partB'', Cut 3 ''partB'']]"
  using anomaly_partA anomaly_partB by simp

lemma anomaly_merge:
  "mergeBins 13 [[Cut 6 ''partA'', Cut 4 ''partA'', Cut 3 ''partA''],
                 [Cut 5 ''partB'', Cut 5 ''partB'', Cut 3 ''partB'']]
    = Inr [[Cut 5 ''partB'', Cut 5 ''partB'', Cut 3 ''partB''],
           [Cut 6 ''partA'', Cut 4 ''partA'', Cut 3 ''partA'']]"
  by (simp add: merge_eval)

lemma anomaly_grouped:
  "groupedSolve \<lparr>effectiveLumberLen = 13,
      cuts = [(''false'', []), (''partA'', [6, 4, 3]), (''partB'', [5, 5, 3])]\<rparr>
    = Inr [[Cut 5 ''partB'', Cut 5 ''partB'', Cut 3 ''partB''],
           [Cut 6 ''partA'', Cut 4 ''partA'', Cut 3 ''partA'']]"
  by (simp add: groupedSolve_def miscCuts_def anomaly_parts anomaly_merge solveCuts_def
      sortCutsDesc_def Array_sort_def del: partLoop.simps)

lemma anomaly_naive:
  "naiveSolve \<lparr>effectiveLumberLen = 13,
      cuts = [(''false'', []), (''partA'', [6, 4, 3]), (''partB'', [5, 5, 3])]\<rparr>
    = Inr [[Cut 6 ''partA'', Cut 5 ''partB''],
           [Cut 5 ''partB'', Cut 4 ''partA'', Cut 3 ''partA''],
           [Cut 3 ''partB'']]"
  by (simp add: naiveSolve_def sortDesc_def compareNumbers_def pack_eval)

theorem global_count_counterexample:
  "naiveSolve \<lparr>effectiveLumberLen = 13,
      cuts = [(''false'', []), (''partA'', [6, 4, 3]), (''partB'', [5, 5, 3])]\<rparr>
    = Inr [[Cut 6 ''partA'', Cut 5 ''partB''],
           [Cut 5 ''partB'', Cut 4 ''partA'', Cut 3 ''partA''],
           [Cut 3 ''partB'']]
   \<and> groupedSolve \<lparr>effectiveLumberLen = 13,
      cuts = [(''false'', []), (''partA'', [6, 4, 3]), (''partB'', [5, 5, 3])]\<rparr>
    = Inr [[Cut 5 ''partB'', Cut 5 ''partB'', Cut 3 ''partB''],
           [Cut 6 ''partA'', Cut 4 ''partA'', Cut 3 ''partA'']]
   \<and> length [[Cut 5 ''partB'', Cut 5 ''partB'', Cut 3 ''partB''],
           [Cut 6 ''partA'', Cut 4 ''partA'', Cut 3 ''partA'']]
     < length [[Cut 6 ''partA'', Cut 5 ''partB''],
           [Cut 5 ''partB'', Cut 4 ''partA'', Cut 3 ''partA''],
           [Cut 3 ''partB'']]"
  using anomaly_naive anomaly_grouped by simp

section \<open>C9: part names do not influence the packing\<close>

lemma placeCut_lengths:
  "map (map value') (placeCut L c bins) = placeLength L (value' c) (map (map value') bins)"
proof -
  have rem: "jsSub L (sumList (map value' b)) = getBinRemainder L b" for b
    by (simp add: getBinRemainder_def sumCutList_def)
  have rems: "map (\<lambda>b. jsSub L (sumList b)) (map (map value') bins)
      = map (getBinRemainder L) bins"
    by (simp add: rem comp_def)
  show ?thesis
    unfolding placeCut_def placeLength_def rems
    by (cases "filter (\<lambda>val. val \<ge> value' c) (map (getBinRemainder L) bins)")
       (simp_all add: rem comp_def)
qed

lemma foldl_placeCut_lengths:
  "map (map value') (foldl (\<lambda>bs k. placeCut L k bs) bins ks)
     = foldl (\<lambda>bs v. placeLength L v bs) (map (map value') bins) (map value' ks)"
  by (induction ks arbitrary: bins) (simp_all add: placeCut_lengths)

lemma map_insort_key: "map f (insort_key f x xs) = insort (f x) (map f xs)"
  by (induction xs) simp_all

lemma map_sort_key: "map f (sort_key f xs) = sort (map f xs)"
  by (induction xs) (simp_all add: map_insort_key)

lemma sort_mset_cong: "mset xs = mset ys \<Longrightarrow> sort xs = sort (ys :: real list)"
  by (rule properties_for_sort) simp_all

lemma lengths_of_flat:
  "map value' (concat (map (\<lambda>(key, vs). map (\<lambda>val. Cut val key) vs) parts))
     = concat (map snd parts)"
  by (induction parts) (auto simp: comp_def)

lemma naiveSolve_lengths:
  assumes "cuts inp \<noteq> []"
  shows "\<exists>out. naiveSolve inp = Inr out \<and>
     map (map value') out
       = foldl (\<lambda>bs v. placeLength (effectiveLumberLen inp) v bs) [[]]
           (rev (sort (concat (map snd (cuts inp)))))"
proof -
  let ?flat = "concat (map (\<lambda>(key, vs). map (\<lambda>val. Cut val key) vs) (cuts inp))"
  let ?L = "effectiveLumberLen inp"
  let ?out = "foldl (\<lambda>bs k. placeCut ?L k bs) [[]] (rev (sort_key value' (rev ?flat)))"
  have out: "naiveSolve inp = Inr ?out"
    unfolding naiveSolve_flat[OF assms] solveCuts_Inst by simp
  have "map value' (rev (sort_key value' (rev ?flat)))
      = rev (map value' (sort_key value' (rev ?flat)))"
    by (rule rev_map[symmetric])
  also have "\<dots> = rev (sort (map value' (rev ?flat)))"
    by (simp only: map_sort_key)
  also have "sort (map value' (rev ?flat)) = sort (map value' ?flat)"
    by (rule sort_mset_cong) simp
  finally have "map value' (rev (sort_key value' (rev ?flat)))
      = rev (sort (concat (map snd (cuts inp))))"
    by (simp only: lengths_of_flat)
  then have "map (map value') ?out
      = foldl (\<lambda>bs v. placeLength ?L v bs) [[]] (rev (sort (concat (map snd (cuts inp)))))"
    by (simp add: foldl_placeCut_lengths)
  with out show ?thesis by blast
qed

text \<open>
  C9. Two requests with the same usable length whose cut lengths, taken over all parts,
  are the same multiset (whatever the part names and the grouping) get from
  \<^verbatim>\<open>naiveSolve\<close> bins with the same lengths, bin by bin and in the same order. (The
  object \<^verbatim>\<open>cuts\<close> always has the miscellaneous key, so it is not empty.)
\<close>

theorem naiveSolve_ignores_part_names:
  assumes "cuts r1 \<noteq> []" and "cuts r2 \<noteq> []"
    and "effectiveLumberLen r1 = effectiveLumberLen r2"
    and "mset (concat (map snd (cuts r1))) = mset (concat (map snd (cuts r2)))"
  shows "\<exists>out1 out2. naiveSolve r1 = Inr out1 \<and> naiveSolve r2 = Inr out2
           \<and> map (map value') out1 = map (map value') out2"
proof -
  have "sort (concat (map snd (cuts r1))) = sort (concat (map snd (cuts r2)))"
    using assms(4) by (rule sort_mset_cong)
  with naiveSolve_lengths[OF assms(1)] naiveSolve_lengths[OF assms(2)] assms(3)
  show ?thesis by fastforce
qed

theorem naiveSolve_ignores_part_names_witness:
  "\<exists>out1 out2.
     naiveSolve \<lparr>effectiveLumberLen = 10, cuts = [(''false'', [4]), (''a'', [6, 6])]\<rparr> = Inr out1
     \<and> naiveSolve \<lparr>effectiveLumberLen = 10,
          cuts = [(''false'', [6]), (''x'', [4]), (''y'', [6])]\<rparr> = Inr out2
     \<and> map (map value') out1 = map (map value') out2"
proof -
  let ?r1 = "\<lparr>effectiveLumberLen = 10, cuts = [(''false'', [4]), (''a'', [6, 6])]\<rparr>"
  let ?r2 = "\<lparr>effectiveLumberLen = 10, cuts = [(''false'', [6]), (''x'', [4]), (''y'', [6])]\<rparr>"
  have h1: "cuts ?r1 \<noteq> []" and h2: "cuts ?r2 \<noteq> []"
    and h3: "effectiveLumberLen ?r1 = effectiveLumberLen ?r2" by simp_all
  have h4: "mset (concat (map snd (cuts ?r1))) = mset (concat (map snd (cuts ?r2)))"
    by simp
  show ?thesis by (rule naiveSolve_ignores_part_names[OF h1 h2 h3 h4])
qed

section \<open>What solveCuts does to the arrays of its caller\<close>

lemma grows_refl: "grows h h"
  by (auto simp: grows_def split: obj.splits)

lemma grows_trans:
  assumes "grows h h'" and "grows h' h''"
  shows "grows h h''"
  unfolding grows_def
proof (intro conjI allI impI)
  show "length h \<le> length h''"
    using assms by (simp add: grows_def)
next
  fix r assume r: "r < length h"
  then have r': "r < length h'" using assms(1) by (simp add: grows_def)
  from assms(1) r have 1: "case h ! r of
          CutArray cs \<Rightarrow> h' ! r = CutArray cs
        | Bin x \<Rightarrow> (\<exists>added. h' ! r = Bin (x @ added))
        | BinArray rs \<Rightarrow> (\<exists>new. h' ! r = BinArray (rs @ new))"
    by (simp add: grows_def)
  from assms(2) r' have 2: "case h' ! r of
          CutArray cs \<Rightarrow> h'' ! r = CutArray cs
        | Bin x \<Rightarrow> (\<exists>added. h'' ! r = Bin (x @ added))
        | BinArray rs \<Rightarrow> (\<exists>new. h'' ! r = BinArray (rs @ new))"
    by (simp add: grows_def)
  show "case h ! r of
          CutArray cs \<Rightarrow> h'' ! r = CutArray cs
        | Bin x \<Rightarrow> (\<exists>added. h'' ! r = Bin (x @ added))
        | BinArray rs \<Rightarrow> (\<exists>new. h'' ! r = BinArray (rs @ new))"
  proof (cases "h ! r")
    case (CutArray cs)
    with 1 2 show ?thesis by simp
  next
    case (Bin x)
    with 1 obtain a where "h' ! r = Bin (x @ a)" by auto
    with 2 obtain a' where "h'' ! r = Bin ((x @ a) @ a')" by auto
    then have "h'' ! r = Bin (x @ (a @ a'))" by simp
    with Bin show ?thesis by auto
  next
    case (BinArray rs)
    with 1 obtain n where "h' ! r = BinArray (rs @ n)" by auto
    with 2 obtain n' where "h'' ! r = BinArray ((rs @ n) @ n')" by auto
    then have "h'' ! r = BinArray (rs @ (n @ n'))" by simp
    with BinArray show ?thesis by auto
  qed
qed

lemma grows_push_cut:
  assumes "r < length h" and "h ! r = Bin x"
  shows "grows h (h[r := Bin (x @ ys)])"
  unfolding grows_def
proof (intro conjI allI impI)
  show "length h \<le> length (h[r := Bin (x @ ys)])" by simp
next
  fix q assume "q < length h"
  then show "case h ! q of
          CutArray cs \<Rightarrow> h[r := Bin (x @ ys)] ! q = CutArray cs
        | Bin x' \<Rightarrow> (\<exists>added. h[r := Bin (x @ ys)] ! q = Bin (x' @ added))
        | BinArray rs \<Rightarrow> (\<exists>new. h[r := Bin (x @ ys)] ! q = BinArray (rs @ new))"
    using assms by (cases "q = r") (auto split: obj.splits)
qed

lemma tieLoop_length: "length (tieLoop L m c rs h) = length h"
  by (induction rs arbitrary: h) simp_all

lemma tieLoop_other: "q \<notin> set rs \<Longrightarrow> tieLoop L m c rs h ! q = h ! q"
  by (induction rs arbitrary: h) simp_all

lemma tieLoop_grows:
  "\<forall>r\<in>set rs. r < length h \<and> (\<exists>x. h ! r = Bin x) \<Longrightarrow> grows h (tieLoop L m c rs h)"
proof (induction rs arbitrary: h)
  case Nil
  then show ?case by (simp add: grows_refl)
next
  case (Cons r rs)
  from Cons.prems obtain x where r: "r < length h" "h ! r = Bin x" by auto
  let ?h1 = "if getBinRemainder L (binAt h r) = m then h[r := Bin (binAt h r @ [c])] else h"
  have bx: "binAt h r = x" using r by (simp add: binAt_def)
  have g1: "grows h ?h1"
    using grows_push_cut[OF r, of "[c]"] by (simp add: bx grows_refl)
  have "\<forall>q\<in>set rs. q < length ?h1 \<and> (\<exists>y. ?h1 ! q = Bin y)"
    using Cons.prems r by (auto simp: nth_list_update)
  then have "grows ?h1 (tieLoop L m c rs ?h1)" by (rule Cons.IH)
  with g1 have "grows h (tieLoop L m c rs ?h1)" by (rule grows_trans)
  then show ?case by simp
qed

lemma grows_binsOk:
  assumes "binsOk h b" and "grows h h'" and "h' ! b = h ! b"
  shows "binsOk h' b"
proof -
  from assms(1) obtain rs where rs: "b < length h" "h ! b = BinArray rs"
    "\<forall>r\<in>set rs. r < length h \<and> (\<exists>x. h ! r = Bin x)"
    by (auto simp: binsOk_def)
  have "r < length h' \<and> (\<exists>x. h' ! r = Bin x)" if "r \<in> set rs" for r
  proof -
    from rs(3) that obtain x where x: "r < length h" "h ! r = Bin x" by auto
    with assms(2) show ?thesis
      by (auto simp: grows_def dest!: spec[of _ r])
  qed
  moreover have "b < length h'" using rs(1) assms(2) by (simp add: grows_def)
  ultimately show ?thesis using rs(2) assms(3) by (auto simp: binsOk_def)
qed

lemma placeCutH_step:
  assumes "binsOk h b"
  shows "grows h (placeCutH L c b h) \<and> binsOk (placeCutH L c b h) b"
proof -
  from assms obtain rs where rs: "b < length h" "h ! b = BinArray rs"
    "\<forall>r\<in>set rs. r < length h \<and> (\<exists>x. h ! r = Bin x)"
    by (auto simp: binsOk_def)
  have bins: "binsAt h b = rs" using rs by (simp add: binsAt_def)
  have notb: "b \<notin> set rs" using rs by auto
  show ?thesis
  proof (cases "filter (\<lambda>val. val \<ge> value' c) (map (\<lambda>r. getBinRemainder L (binAt h r)) rs)")
    case Nil
    let ?h' = "(h @ [Bin [c]])[b := BinArray (rs @ [length h])]"
    have eq: "placeCutH L c b h = ?h'"
      by (simp add: placeCutH_def bins Nil alloc_def)
    have "grows h ?h'"
      unfolding grows_def
    proof (intro conjI allI impI)
      show "length h \<le> length ?h'" by simp
    next
      fix q assume q: "q < length h"
      show "case h ! q of
          CutArray cs \<Rightarrow> ?h' ! q = CutArray cs
        | Bin x' \<Rightarrow> (\<exists>added. ?h' ! q = Bin (x' @ added))
        | BinArray rs' \<Rightarrow> (\<exists>new. ?h' ! q = BinArray (rs' @ new))"
        using q rs(1,2) by (cases "q = b") (auto simp: nth_append split: obj.splits)
    qed
    moreover have "binsOk ?h' b"
    proof -
      have old: "r < length ?h' \<and> (\<exists>x. ?h' ! r = Bin x)" if "r \<in> set rs" for r
      proof -
        from rs(3) that obtain x where x: "r < length h" "h ! r = Bin x" by auto
        from that notb have "r \<noteq> b" by auto
        with x show ?thesis by (simp add: nth_append)
      qed
      have new: "length h < length ?h' \<and> (\<exists>x. ?h' ! length h = Bin x)"
        using rs(1) by simp
      have "b < length ?h'" "?h' ! b = BinArray (rs @ [length h])"
        using rs(1) by simp_all
      moreover have "\<forall>r\<in>set (rs @ [length h]). r < length ?h' \<and> (\<exists>x. ?h' ! r = Bin x)"
        using old new by auto
      ultimately show ?thesis unfolding binsOk_def by blast
    qed
    ultimately show ?thesis by (simp add: eq)
  next
    case (Cons x xs)
    let ?h' = "tieLoop L (Math_min x xs) c rs h"
    have eq: "placeCutH L c b h = ?h'"
      by (simp add: placeCutH_def bins Cons)
    have g: "grows h ?h'" using rs(3) by (rule tieLoop_grows)
    have "?h' ! b = h ! b" using notb by (rule tieLoop_other)
    with assms g have "binsOk ?h' b" by (rule grows_binsOk)
    with g show ?thesis by (simp add: eq)
  qed
qed

lemma cutLoopH_grows:
  "binsOk h b \<Longrightarrow> grows h (snd (cutLoopH L cs b h)) \<and> binsOk (snd (cutLoopH L cs b h)) b"
proof (induction L cs b h rule: cutLoopH.induct)
  case (2 L c rest b h)
  from placeCutH_step[OF "2.prems", of L c]
  have s: "grows h (placeCutH L c b h)" "binsOk (placeCutH L c b h) b" by simp_all
  from "2.IH"[OF s(2)] s(1) show ?case
    by (auto intro: grows_trans)
qed (simp_all add: grows_refl)

lemma cutLoopH_error:
  "fst (cutLoopH L cs b h)
     = (if \<forall>x\<in>set cs. isCut x then None else Some (Error ''Expected instance of Cut''))"
  by (induction L cs b h rule: cutLoopH.induct) auto

lemma solveCutsH_Some:
  assumes "sortCutsDesc (cutsAt h cutsRef) = Inr s"
  shows "solveCutsH cutsRef L (Some b) h =
     (case fst (cutLoopH L s b (h[cutsRef := CutArray s])) of
        Some e \<Rightarrow> Inl e | None \<Rightarrow> Inr b,
      snd (cutLoopH L s b (h[cutsRef := CutArray s])))"
  using assms by (simp add: solveCutsH_def Let_def split: prod.splits)

lemma solveCutsH_None:
  assumes "sortCutsDesc (cutsAt (h @ [Bin [], BinArray [length h]]) cutsRef) = Inr s"
  shows "solveCutsH cutsRef L None h =
     (case fst (cutLoopH L s (Suc (length h))
                  ((h @ [Bin [], BinArray [length h]])[cutsRef := CutArray s])) of
        Some e \<Rightarrow> Inl e | None \<Rightarrow> Inr (Suc (length h)),
      snd (cutLoopH L s (Suc (length h))
                  ((h @ [Bin [], BinArray [length h]])[cutsRef := CutArray s])))"
  using assms by (simp add: solveCutsH_def Let_def alloc_def split: prod.splits)

text \<open>When the sort throws, the call has only made the arrays of an absent \<^verbatim>\<open>bins\<close>.\<close>

lemma solveCutsH_sort_throws:
  assumes "cutsRef < length h" and "h ! cutsRef = CutArray cs" and "sortCutsDesc cs = Inl e"
  shows "solveCutsH cutsRef L binsOpt h
     = (Inl e, case binsOpt of None \<Rightarrow> h @ [Bin [], BinArray [length h]] | Some b \<Rightarrow> h)"
proof (cases binsOpt)
  case None
  have "cutsAt (h @ [Bin [], BinArray [length h]]) cutsRef = cs"
    using assms(1,2) by (simp add: cutsAt_def nth_append)
  with assms(3) None show ?thesis
    by (simp add: solveCutsH_def Let_def alloc_def)
next
  case (Some b)
  have "cutsAt h cutsRef = cs" using assms(1,2) by (simp add: cutsAt_def)
  with assms(3) Some show ?thesis
    by (simp add: solveCutsH_def Let_def)
qed

lemma binsOk_sorted_cuts:
  assumes "binsOk h b" and "r < length h" and "h ! r = CutArray cs"
  shows "binsOk (h[r := CutArray s]) b"
proof -
  from assms(1) obtain rs where rs: "b < length h" "h ! b = BinArray rs"
    "\<forall>q\<in>set rs. q < length h \<and> (\<exists>x. h ! q = Bin x)"
    by (auto simp: binsOk_def)
  have "r \<noteq> b" using rs(2) assms(3) by auto
  moreover have "\<forall>q\<in>set rs. q \<noteq> r" using rs(3) assms(3) by auto
  ultimately have "h[r := CutArray s] ! b = BinArray rs"
    "\<forall>q\<in>set rs. q < length (h[r := CutArray s]) \<and> (\<exists>x. h[r := CutArray s] ! q = Bin x)"
    using rs by (auto simp: nth_list_update)
  then show ?thesis using rs(1) unfolding binsOk_def by auto
qed

lemma binsOk_fresh: "binsOk (h @ [Bin [], BinArray [length h]]) (Suc (length h))"
  by (simp add: binsOk_def nth_append)

text \<open>The store in which the loop of a well-formed call starts, and where its bins are.\<close>

lemma solveCutsH_run:
  assumes "wellFormed h cutsRef binsOpt" and "h ! cutsRef = CutArray cs"
    and "sortCutsDesc cs = Inr s"
  obtains h2 b where
    "solveCutsH cutsRef L binsOpt h =
       (case fst (cutLoopH L s b h2) of Some e \<Rightarrow> Inl e | None \<Rightarrow> Inr b,
        snd (cutLoopH L s b h2))"
    and "binsOk h2 b" and "cutsRef < length h2" and "h2 ! cutsRef = CutArray s"
    and "length h \<le> length h2"
    and "\<forall>r<length h. r \<noteq> cutsRef \<longrightarrow> h2 ! r = h ! r"
    and "\<forall>b'. binsOpt = Some b' \<longrightarrow> b = b'"
    and "binsOpt = None \<longrightarrow> binsAt h2 b = [length h] \<and> binAt h2 (length h) = []"
proof (cases binsOpt)
  case None
  let ?h1 = "h @ [Bin [], BinArray [length h]]"
  let ?h2 = "?h1[cutsRef := CutArray s]"
  from assms have c: "cutsRef < length h" by (simp add: wellFormed_def)
  then have c1: "cutsRef < length ?h1" "?h1 ! cutsRef = CutArray cs"
    using assms(2) by (simp_all add: nth_append)
  then have cs: "cutsAt ?h1 cutsRef = cs" by (simp add: cutsAt_def)
  have "binsOk ?h2 (Suc (length h))"
    using binsOk_fresh c1 by (rule binsOk_sorted_cuts)
  moreover have "solveCutsH cutsRef L binsOpt h =
       (case fst (cutLoopH L s (Suc (length h)) ?h2) of
          Some e \<Rightarrow> Inl e | None \<Rightarrow> Inr (Suc (length h)),
        snd (cutLoopH L s (Suc (length h)) ?h2))"
    unfolding None using assms(3) by (intro solveCutsH_None) (simp only: cs)
  moreover have "cutsRef < length ?h2" "?h2 ! cutsRef = CutArray s"
    "length h \<le> length ?h2" "\<forall>r<length h. r \<noteq> cutsRef \<longrightarrow> ?h2 ! r = h ! r"
    using c by (simp_all add: nth_append)
  moreover have "binsAt ?h2 (Suc (length h)) = [length h]" "binAt ?h2 (length h) = []"
    using c by (simp_all add: binsAt_def binAt_def nth_append)
  ultimately show ?thesis using None by (intro that[of "Suc (length h)" ?h2]) simp_all
next
  case (Some b')
  let ?h2 = "h[cutsRef := CutArray s]"
  from assms Some have c: "cutsRef < length h" and ok: "binsOk h b'"
    by (simp_all add: wellFormed_def)
  have cs: "cutsAt h cutsRef = cs" using c assms(2) by (simp add: cutsAt_def)
  have "binsOk ?h2 b'" using ok c assms(2) by (rule binsOk_sorted_cuts)
  moreover have "solveCutsH cutsRef L binsOpt h =
       (case fst (cutLoopH L s b' ?h2) of Some e \<Rightarrow> Inl e | None \<Rightarrow> Inr b',
        snd (cutLoopH L s b' ?h2))"
    unfolding Some using assms(3) by (intro solveCutsH_Some) (simp only: cs)
  moreover have "cutsRef < length ?h2" "?h2 ! cutsRef = CutArray s"
    "length h \<le> length ?h2" "\<forall>r<length h. r \<noteq> cutsRef \<longrightarrow> ?h2 ! r = h ! r"
    using c by simp_all
  ultimately show ?thesis using Some by (intro that[of b' ?h2]) simp_all
qed

lemma grows_cuts:
  "grows h h' \<Longrightarrow> r < length h \<Longrightarrow> h ! r = CutArray s \<Longrightarrow> cutsAt h' r = s"
  by (auto simp: grows_def cutsAt_def dest!: spec[of _ r])

lemma grows_bin:
  "grows h h' \<Longrightarrow> r < length h \<Longrightarrow> h ! r = Bin x \<Longrightarrow> \<exists>added. binAt h' r = x @ added"
  by (auto simp: grows_def binAt_def dest!: spec[of _ r])

lemma grows_bins:
  "grows h h' \<Longrightarrow> r < length h \<Longrightarrow> h ! r = BinArray rs \<Longrightarrow> \<exists>new. binsAt h' r = rs @ new"
  by (auto simp: grows_def binsAt_def dest!: spec[of _ r])

lemma solveCutsH_sorts:
  assumes "wellFormed h cutsRef binsOpt" and "h ! cutsRef = CutArray cs"
    and "sortCutsDesc cs = Inr s"
  shows "cutsAt (snd (solveCutsH cutsRef L binsOpt h)) cutsRef = s"
proof -
  from assms obtain h2 b where run:
    "solveCutsH cutsRef L binsOpt h =
       (case fst (cutLoopH L s b h2) of Some e \<Rightarrow> Inl e | None \<Rightarrow> Inr b,
        snd (cutLoopH L s b h2))"
    and ok: "binsOk h2 b" and c: "cutsRef < length h2" "h2 ! cutsRef = CutArray s"
    by (rule solveCutsH_run[where L = L])
  from cutLoopH_grows[OF ok] have "grows h2 (snd (cutLoopH L s b h2))"
    by simp
  from grows_cuts[OF this c] show ?thesis by (simp add: run)
qed

section \<open>The run on the store and the run on values\<close>

text \<open>
  When no two entries of the array of bins are the same array, a call on the store
  does to the bins what \<open>solveCuts\<close> computes on their values.
\<close>

lemma tieLoop_distinct:
  assumes "distinct rs" and "\<forall>r\<in>set rs. r < length h \<and> (\<exists>x. h ! r = Bin x)"
  shows "binAt (tieLoop L m c rs h) q
     = (if q \<in> set rs \<and> getBinRemainder L (binAt h q) = m then binAt h q @ [c] else binAt h q)"
  using assms
proof (induction rs arbitrary: h)
  case Nil
  then show ?case by simp
next
  case (Cons r rs)
  let ?h1 = "if getBinRemainder L (binAt h r) = m then h[r := Bin (binAt h r @ [c])] else h"
  from Cons.prems have r: "r < length h" "r \<notin> set rs" "distinct rs" by auto
  have ok1: "\<forall>q\<in>set rs. q < length ?h1 \<and> (\<exists>x. ?h1 ! q = Bin x)"
    using Cons.prems(2) by (auto simp: nth_list_update)
  have other: "binAt ?h1 q = binAt h q" if "q \<noteq> r" for q
    using that by (simp add: binAt_def)
  have self: "binAt ?h1 r
      = (if getBinRemainder L (binAt h r) = m then binAt h r @ [c] else binAt h r)"
    using r(1) by (simp add: binAt_def)
  have "binAt (tieLoop L m c (r # rs) h) q = binAt (tieLoop L m c rs ?h1) q" by simp
  also have "\<dots> = (if q \<in> set rs \<and> getBinRemainder L (binAt ?h1 q) = m
                     then binAt ?h1 q @ [c] else binAt ?h1 q)"
    using r(3) ok1 by (rule Cons.IH)
  also have "\<dots> = (if q \<in> set (r # rs) \<and> getBinRemainder L (binAt h q) = m
                     then binAt h q @ [c] else binAt h q)"
  proof (cases "q = r")
    case True
    with r(2) self show ?thesis by simp
  next
    case False
    with other[OF False] show ?thesis by simp
  qed
  finally show ?case .
qed

lemma placeCutH_refines:
  assumes "binsOk h b" and "distinct (binsAt h b)"
  shows "binValues (placeCutH L c b h) b = placeCut L c (binValues h b)
       \<and> distinct (binsAt (placeCutH L c b h) b)"
proof -
  from assms(1) obtain rs where rs: "b < length h" "h ! b = BinArray rs"
    "\<forall>r\<in>set rs. r < length h \<and> (\<exists>x. h ! r = Bin x)"
    by (auto simp: binsOk_def)
  have bins: "binsAt h b = rs" using rs by (simp add: binsAt_def)
  have notb: "b \<notin> set rs" using rs by auto
  have rems: "map (\<lambda>r. getBinRemainder L (binAt h r)) rs
      = map (getBinRemainder L) (binValues h b)"
    by (simp add: binValues_def bins comp_def)
  show ?thesis
  proof (cases "filter (\<lambda>val. val \<ge> value' c) (map (\<lambda>r. getBinRemainder L (binAt h r)) rs)")
    case Nil
    let ?h' = "(h @ [Bin [c]])[b := BinArray (rs @ [length h])]"
    have eq: "placeCutH L c b h = ?h'"
      by (simp add: placeCutH_def bins Nil alloc_def)
    have "binsAt ?h' b = rs @ [length h]" using rs(1) by (simp add: binsAt_def)
    moreover have "binAt ?h' r = binAt h r" if "r \<in> set rs" for r
    proof -
      from that rs(3) notb have "r < length h" "r \<noteq> b" by auto
      then show ?thesis by (simp add: binAt_def nth_append)
    qed
    moreover have "binAt ?h' (length h) = [c]" using rs(1) by (simp add: binAt_def)
    moreover have "length h \<notin> set rs" using rs(3) by auto
    ultimately have "binValues ?h' b = binValues h b @ [[c]]" "distinct (binsAt ?h' b)"
      using assms(2) by (simp_all add: binValues_def bins)
    moreover have "placeCut L c (binValues h b) = binValues h b @ [[c]]"
      using Nil by (simp add: placeCut_def rems)
    ultimately show ?thesis by (simp add: eq)
  next
    case (Cons x xs)
    let ?m = "Math_min x xs"
    let ?h' = "tieLoop L ?m c rs h"
    have eq: "placeCutH L c b h = ?h'"
      by (simp add: placeCutH_def bins Cons)
    have "?h' ! b = h ! b" using notb by (rule tieLoop_other)
    then have b': "binsAt ?h' b = rs"
      using rs(1,2) by (simp add: binsAt_def tieLoop_length)
    have "binAt ?h' q = (if q \<in> set rs \<and> getBinRemainder L (binAt h q) = ?m
                         then binAt h q @ [c] else binAt h q)" for q
      using assms(2) rs(3) unfolding bins by (rule tieLoop_distinct)
    then have "binValues ?h' b
        = map (\<lambda>bn. if getBinRemainder L bn = ?m then bn @ [c] else bn) (binValues h b)"
      by (simp add: binValues_def b' bins)
    moreover have "placeCut L c (binValues h b)
        = map (\<lambda>bn. if getBinRemainder L bn = ?m then bn @ [c] else bn) (binValues h b)"
      using Cons by (simp add: placeCut_def rems)
    ultimately show ?thesis using assms(2) by (simp add: eq b' bins)
  qed
qed

lemma cutLoopH_refines:
  assumes "binsOk h b" and "distinct (binsAt h b)"
  shows "(case fst (cutLoopH L cs b h) of
            Some e \<Rightarrow> cutLoop L cs (binValues h b) = Inl e
          | None \<Rightarrow> cutLoop L cs (binValues h b) = Inr (binValues (snd (cutLoopH L cs b h)) b))"
  using assms
proof (induction L cs b h rule: cutLoopH.induct)
  case (2 L c rest b h)
  from placeCutH_step[OF "2.prems"(1), of L c] have ok: "binsOk (placeCutH L c b h) b" by simp
  from placeCutH_refines[OF "2.prems", of L c]
  have r: "binValues (placeCutH L c b h) b = placeCut L c (binValues h b)"
    "distinct (binsAt (placeCutH L c b h) b)" by simp_all
  from "2.IH"[OF ok r(2)] show ?case by (simp add: r(1) split: option.splits)
qed simp_all

lemma solveCutsH_refines:
  assumes "wellFormed h cutsRef binsOpt" and "h ! cutsRef = CutArray cs"
    and "\<forall>b. binsOpt = Some b \<longrightarrow> distinct (binsAt h b)"
  shows "(case fst (solveCutsH cutsRef L binsOpt h) of
            Inl e \<Rightarrow> solveCuts cs L (map_option (binValues h) binsOpt) = Inl e
          | Inr b \<Rightarrow> solveCuts cs L (map_option (binValues h) binsOpt)
                     = Inr (binValues (snd (solveCutsH cutsRef L binsOpt h)) b))"
proof (cases "sortCutsDesc cs")
  case (Inl e)
  from assms(1) have "cutsRef < length h" by (simp add: wellFormed_def)
  from solveCutsH_sort_throws[OF this assms(2) Inl] Inl show ?thesis
    by (simp add: solveCuts_def)
next
  case (Inr s)
  from assms(1,2) Inr obtain h2 b where run:
    "solveCutsH cutsRef L binsOpt h =
       (case fst (cutLoopH L s b h2) of Some e \<Rightarrow> Inl e | None \<Rightarrow> Inr b,
        snd (cutLoopH L s b h2))"
    and ok: "binsOk h2 b" and same: "\<forall>r<length h. r \<noteq> cutsRef \<longrightarrow> h2 ! r = h ! r"
    and len: "length h \<le> length h2"
    and c2: "cutsRef < length h2" "h2 ! cutsRef = CutArray s"
    and bopt: "\<forall>b'. binsOpt = Some b' \<longrightarrow> b = b'"
    and fresh: "binsOpt = None \<longrightarrow> binsAt h2 b = [length h] \<and> binAt h2 (length h) = []"
    by (rule solveCutsH_run[where L = L])
  have start: "binValues h2 b = (case map_option (binValues h) binsOpt of None \<Rightarrow> [[]] | Some bs \<Rightarrow> bs)
      \<and> distinct (binsAt h2 b)"
  proof (cases binsOpt)
    case None
    with fresh show ?thesis by (simp add: binValues_def)
  next
    case (Some b')
    with bopt have [simp]: "b = b'" by simp
    from assms(1) Some obtain rs where rs: "b' < length h" "h ! b' = BinArray rs"
      "\<forall>r\<in>set rs. r < length h \<and> (\<exists>x. h ! r = Bin x)"
      by (auto simp: wellFormed_def binsOk_def)
    have "b' \<noteq> cutsRef" using rs(2) assms(2) by auto
    with same rs(1,2) len have b2: "binsAt h2 b' = rs" "binsAt h b' = rs"
      by (auto simp: binsAt_def)
    have "binAt h2 r = binAt h r" if "r \<in> set rs" for r
    proof -
      from rs(3) that obtain x where x: "r < length h" "h ! r = Bin x" by auto
      then have "r \<noteq> cutsRef" using assms(2) by auto
      with same x len show ?thesis by (auto simp: binAt_def)
    qed
    then have "binValues h2 b' = binValues h b'"
      by (simp add: binValues_def b2)
    with assms(3) Some b2 show ?thesis by simp
  qed
  from cutLoopH_refines[OF ok, of L s] start
  show ?thesis
    by (auto simp: run solveCuts_def Inr split: option.splits)
qed

section \<open>C6: the array of cuts of the caller\<close>

text \<open>
  C6 fails as stated: \<^verbatim>\<open>sortCutsDesc\<close> sorts and reverses the array it is given, and
  \<^verbatim>\<open>solveCuts\<close> passes it the array of its caller, not a copy. As the code has it:
  after a call of \<^verbatim>\<open>solveCuts\<close> on an array of Cuts, the array of the caller holds the
  same Cuts rearranged in descending order of length.
\<close>

theorem cuts_sorted_in_place:
  assumes "wellFormed h cutsRef binsOpt" and "h ! cutsRef = CutArray (map Inst ks)"
  shows "\<exists>order. cutsAt (snd (solveCutsH cutsRef lumberLen binsOpt h)) cutsRef = map Inst order
           \<and> mset order = mset ks \<and> sorted (rev (map value' order))"
proof -
  have "cutsAt (snd (solveCutsH cutsRef lumberLen binsOpt h)) cutsRef
      = map Inst (rev (sort_key value' ks))"
    using assms sortCutsDesc_Inst by (rule solveCutsH_sorts)
  moreover have "mset (rev (sort_key value' ks)) = mset ks" by simp
  moreover have "sorted (rev (map value' (rev (sort_key value' ks))))"
    by (rule sorted_desc_order)
  ultimately show ?thesis by blast
qed

lemma wellFormed_example:
  "wellFormed [CutArray [Inst (Cut 1 ''a''), Inst (Cut 2 ''a'')]] 0 None"
  by (simp add: wellFormed_def)

theorem cuts_sorted_in_place_witness:
  "\<exists>order. cutsAt (snd (solveCutsH 0 10 None
                [CutArray (map Inst [Cut 1 ''a'', Cut 2 ''a''])])) 0 = map Inst order
     \<and> mset order = mset [Cut 1 ''a'', Cut 2 ''a''] \<and> sorted (rev (map value' order))"
proof -
  have h1: "wellFormed [CutArray (map Inst [Cut 1 ''a'', Cut 2 ''a''])] 0 None"
    by (simp add: wellFormed_def)
  have h2: "[CutArray (map Inst [Cut 1 ''a'', Cut 2 ''a''])] ! 0
      = CutArray (map Inst [Cut 1 ''a'', Cut 2 ''a''])" by simp
  show ?thesis by (rule cuts_sorted_in_place[OF h1 h2])
qed

theorem cuts_not_copied_counterexample:
  "cutsAt [CutArray [Inst (Cut 1 ''a''), Inst (Cut 2 ''a'')]] 0
     = [Inst (Cut 1 ''a''), Inst (Cut 2 ''a'')]
   \<and> cutsAt (snd (solveCutsH 0 10 None [CutArray [Inst (Cut 1 ''a''), Inst (Cut 2 ''a'')]])) 0
     = [Inst (Cut 2 ''a''), Inst (Cut 1 ''a'')]"
proof -
  have s: "sortCutsDesc [Inst (Cut 1 ''a''), Inst (Cut 2 ''a'')]
      = Inr [Inst (Cut 2 ''a''), Inst (Cut 1 ''a'')]"
    by (simp add: sortCutsDesc_def Array_sort_def compareValues_def jsSub_le_0)
  have "cutsAt (snd (solveCutsH 0 10 None [CutArray [Inst (Cut 1 ''a''), Inst (Cut 2 ''a'')]])) 0
      = [Inst (Cut 2 ''a''), Inst (Cut 1 ''a'')]"
    by (rule solveCutsH_sorts[OF wellFormed_example _ s]) simp
  then show ?thesis
    by (simp add: cutsAt_def)
qed

section \<open>C10: the bins of the caller\<close>

text \<open>
  C10. When \<^verbatim>\<open>solveCuts\<close> is called with an array of bins, what it returns (when
  every element of \<^verbatim>\<open>cuts\<close> is a Cut, so that it does not throw) is that same array,
  not a copy; after the call the array of the caller holds the references it held, in
  their places, followed by the bins pushed; and every bin array of the caller holds
  the cuts it held followed by the cuts placed into it. When the entries of the array
  are different arrays, the bins it then holds are the bins that \<open>solveCuts\<close>
  computes on values.
\<close>

theorem existing_bins_mutated_in_place:
  assumes "wellFormed h cutsRef (Some b)" and "h ! cutsRef = CutArray cs"
    and "h ! b = BinArray rs"
  shows "((\<forall>x\<in>set cs. isCut x) \<longrightarrow> fst (solveCutsH cutsRef lumberLen (Some b) h) = Inr b)
       \<and> (\<exists>new. binsAt (snd (solveCutsH cutsRef lumberLen (Some b) h)) b = rs @ new)
       \<and> (\<forall>r\<in>set rs. \<exists>added.
             binAt (snd (solveCutsH cutsRef lumberLen (Some b) h)) r = binAt h r @ added)
       \<and> (distinct rs \<longrightarrow>
            (\<forall>out. solveCuts cs lumberLen (Some (map (binAt h) rs)) = Inr out
               \<longrightarrow> binValues (snd (solveCutsH cutsRef lumberLen (Some b) h)) b = out))"
proof (cases "sortCutsDesc cs")
  case (Inl e)
  from assms(1) have c: "cutsRef < length h" and okh: "binsOk h b"
    by (simp_all add: wellFormed_def)
  from solveCutsH_sort_throws[OF c assms(2) Inl, of lumberLen "Some b"]
  have run: "solveCutsH cutsRef lumberLen (Some b) h = (Inl e, h)" by simp
  from okh have bl: "b < length h" by (simp add: binsOk_def)
  have "\<not> (\<forall>x\<in>set cs. isCut x)"
  proof
    assume "\<forall>x\<in>set cs. isCut x"
    then have "Null \<notin> set cs" by auto
    with sortCutsDesc_returns[of cs] Inl show False by auto
  qed
  moreover have "binsAt h b = rs @ []" using bl assms(3) by (simp add: binsAt_def)
  moreover have "solveCuts cs lumberLen (Some (map (binAt h) rs)) = Inl e"
    using Inl by (simp add: solveCuts_def)
  ultimately show ?thesis unfolding run by auto
next
  case (Inr s)
  from assms(1,2) Inr obtain h2 b' where run:
    "solveCutsH cutsRef lumberLen (Some b) h =
       (case fst (cutLoopH lumberLen s b' h2) of
          Some e \<Rightarrow> Inl e | None \<Rightarrow> Inr b',
        snd (cutLoopH lumberLen s b' h2))"
    and ok: "binsOk h2 b'" and same: "\<forall>r<length h. r \<noteq> cutsRef \<longrightarrow> h2 ! r = h ! r"
    and len: "length h \<le> length h2"
    and b': "\<forall>b''. Some b = Some b'' \<longrightarrow> b' = b''"
    by (rule solveCutsH_run[where L = lumberLen])
  from b' have [simp]: "b' = b" by simp
  let ?h3 = "snd (cutLoopH lumberLen s b h2)"
  have h3: "snd (solveCutsH cutsRef lumberLen (Some b) h) = ?h3" by (simp add: run)
  from cutLoopH_grows[OF ok] have g: "grows h2 ?h3" by simp
  from assms(1) have okh: "binsOk h b" by (simp add: wellFormed_def)
  with assms(3) have bl: "b < length h"
    and bins: "\<forall>r\<in>set rs. r < length h \<and> (\<exists>x. h ! r = Bin x)"
    by (auto simp: binsOk_def)
  have "b \<noteq> cutsRef" using assms(2,3) by auto
  with same bl assms(3) len have "b < length h2" "h2 ! b = BinArray rs" by auto
  from grows_bins[OF g this] have 2: "\<exists>new. binsAt ?h3 b = rs @ new" .
  have 3: "\<exists>added. binAt ?h3 r = binAt h r @ added" if "r \<in> set rs" for r
  proof -
    from bins that obtain x where x: "r < length h" "h ! r = Bin x" by auto
    then have "r \<noteq> cutsRef" using assms(2) by auto
    with same x len have "r < length h2" "h2 ! r = Bin x" by auto
    from grows_bin[OF g this] x show ?thesis by (simp add: binAt_def)
  qed
  have sets: "set s = set cs"
  proof -
    from Inr obtain ys where "Array_sort (\<lambda>x. x = Undefined) compareValues cs = Inr ys"
      and "s = rev ys"
      by (auto simp: sortCutsDesc_def split: sum.splits)
    with set_Array_sort[of "\<lambda>x. x = Undefined" compareValues cs ys] show ?thesis by simp
  qed
  have 1: "fst (solveCutsH cutsRef lumberLen (Some b) h) = Inr b" if "\<forall>x\<in>set cs. isCut x"
    using that by (simp add: run cutLoopH_error sets)
  have 4: "binValues ?h3 b = out"
    if "distinct rs" and "solveCuts cs lumberLen (Some (map (binAt h) rs)) = Inr out" for out
  proof -
    have at: "binsAt h b = rs" using bl assms(3) by (simp add: binsAt_def)
    then have d: "\<forall>b''. Some b = Some b'' \<longrightarrow> distinct (binsAt h b'')"
      using that(1) by simp
    have "fst (solveCutsH cutsRef lumberLen (Some b) h) = Inr b
        \<or> (\<exists>e. fst (solveCutsH cutsRef lumberLen (Some b) h) = Inl e)"
      by (simp add: run split: option.splits)
    with solveCutsH_refines[OF assms(1,2) d, of lumberLen] that(2) show ?thesis
      by (auto simp: binValues_def at h3)
  qed
  from 1 2 3 4 show ?thesis unfolding h3 by blast
qed

theorem existing_bins_mutated_in_place_witness:
  "fst (solveCutsH 0 10 (Some 1)
          [CutArray [Inst (Cut 4 ''a'')], BinArray [2, 3], Bin [Cut 6 ''b''], Bin [Cut 5 ''c'']])
     = Inr 1
   \<and> (\<exists>new. binsAt (snd (solveCutsH 0 10 (Some 1)
          [CutArray [Inst (Cut 4 ''a'')], BinArray [2, 3], Bin [Cut 6 ''b''], Bin [Cut 5 ''c'']])) 1
        = [2, 3] @ new)
   \<and> (\<exists>added. binAt (snd (solveCutsH 0 10 (Some 1)
          [CutArray [Inst (Cut 4 ''a'')], BinArray [2, 3], Bin [Cut 6 ''b''], Bin [Cut 5 ''c'']])) 2
        = [Cut 6 ''b''] @ added)
   \<and> binValues (snd (solveCutsH 0 10 (Some 1)
          [CutArray [Inst (Cut 4 ''a'')], BinArray [2, 3], Bin [Cut 6 ''b''], Bin [Cut 5 ''c'']])) 1
        = [[Cut 6 ''b'', Cut 4 ''a''], [Cut 5 ''c'']]"
proof -
  let ?h = "[CutArray [Inst (Cut 4 ''a'')], BinArray [2, 3], Bin [Cut 6 ''b''], Bin [Cut 5 ''c'']]"
  have h1: "wellFormed ?h 0 (Some 1)"
    by (simp add: wellFormed_def binsOk_def)
  have h2: "?h ! 0 = CutArray [Inst (Cut 4 ''a'')]" by simp
  have h3: "?h ! 1 = BinArray [2, 3]" by simp
  have b2: "binAt ?h 2 = [Cut 6 ''b'']" "binAt ?h 3 = [Cut 5 ''c'']" by (simp_all add: binAt_def)
  have v: "solveCuts [Inst (Cut 4 ''a'')] 10 (Some [[Cut 6 ''b''], [Cut 5 ''c'']])
      = Inr [[Cut 6 ''b'', Cut 4 ''a''], [Cut 5 ''c'']]"
    by (simp add: pack_eval)
  from existing_bins_mutated_in_place[OF h1 h2 h3, of 10] b2 v
  show ?thesis by simp
qed

end
